theory Spec2Isabelle
  imports Main
begin

section \<open>Data model of \<open>swoc::detail::RBNode\<close>\<close>

text \<open>
  Nodes are intrusive: the linkage fields live in the caller's record and the tree code
  only reads and writes them through pointers. A pointer is \<open>None\<close> (the null pointer)
  or \<open>Some a\<close> for an address \<open>a\<close>; the store maps every address to the linkage fields
  found there.
\<close>

type_synonym addr = nat

datatype Color = RED | BLACK

datatype Direction = NONE | LEFT | RIGHT

record RBNode =
  n_color :: Color
  n_parent :: "addr option"
  n_left :: "addr option"
  n_right :: "addr option"

text \<open>
  The program state: the store of nodes, and the log of calls of the virtual hook
  \<open>structure_fixup\<close>. Each log entry is the node the hook ran on together with the
  left and right links the node had at that moment.
\<close>

record state =
  heap :: "addr \<Rightarrow> RBNode"
  fixups :: "(addr \<times> addr option \<times> addr option) list"

datatype error = NullDeref

datatype 'a flow = Break | Continue 'a

subsection \<open>Field access\<close>

definition color_of :: "state \<Rightarrow> addr \<Rightarrow> Color" where
  "color_of s a = n_color (heap s a)"

definition parent_of :: "state \<Rightarrow> addr \<Rightarrow> addr option" where
  "parent_of s a = n_parent (heap s a)"

definition left_of :: "state \<Rightarrow> addr \<Rightarrow> addr option" where
  "left_of s a = n_left (heap s a)"

definition right_of :: "state \<Rightarrow> addr \<Rightarrow> addr option" where
  "right_of s a = n_right (heap s a)"

definition set_color :: "state \<Rightarrow> addr \<Rightarrow> Color \<Rightarrow> state" where
  "set_color s a c = s\<lparr>heap := (heap s)(a := (heap s a)\<lparr>n_color := c\<rparr>)\<rparr>"

definition set_parent :: "state \<Rightarrow> addr \<Rightarrow> addr option \<Rightarrow> state" where
  "set_parent s a p = s\<lparr>heap := (heap s)(a := (heap s a)\<lparr>n_parent := p\<rparr>)\<rparr>"

definition set_left :: "state \<Rightarrow> addr \<Rightarrow> addr option \<Rightarrow> state" where
  "set_left s a p = s\<lparr>heap := (heap s)(a := (heap s a)\<lparr>n_left := p\<rparr>)\<rparr>"

definition set_right :: "state \<Rightarrow> addr \<Rightarrow> addr option \<Rightarrow> state" where
  "set_right s a p = s\<lparr>heap := (heap s)(a := (heap s a)\<lparr>n_right := p\<rparr>)\<rparr>"

text \<open>\<open>operator==(RBNode *n, Color c)\<close>: a null pointer counts as \<open>BLACK\<close>.\<close>

definition ptr_color :: "state \<Rightarrow> addr option \<Rightarrow> Color" where
  "ptr_color s n = (case n of None \<Rightarrow> BLACK | Some a \<Rightarrow> color_of s a)"

subsection \<open>Linkage primitives\<close>

text \<open>\<open>RBNode::child_at\<close> (RBTree.cc, line 46).\<close>

definition child_at :: "state \<Rightarrow> addr \<Rightarrow> Direction \<Rightarrow> addr option" where
  "child_at s this d =
     (if d = RIGHT then right_of s this else if d = LEFT then left_of s this else None)"

text \<open>
  Modelled from the spec: \<open>flip\<close> is declared in \<open>swoc/RBTree.h\<close>, which is not among the
  sources. The spec: \<open>LEFT\<close> and \<open>RIGHT\<close> are exchanged, \<open>NONE\<close> stays \<open>NONE\<close>.
\<close>

fun flip :: "Direction \<Rightarrow> Direction" where
  "flip LEFT = RIGHT"
| "flip RIGHT = LEFT"
| "flip NONE = NONE"

text \<open>
  Modelled from the spec: \<open>direction_of\<close> is declared in \<open>swoc/RBTree.h\<close>. The spec: a
  derived relation, computed by identity comparison of the pointer against the left and
  the right link (the left link is compared first).
\<close>

definition direction_of :: "state \<Rightarrow> addr \<Rightarrow> addr option \<Rightarrow> Direction" where
  "direction_of s this n =
     (if n = left_of s this then LEFT else if n = right_of s this then RIGHT else NONE)"

text \<open>
  Modelled from the spec: \<open>clear_child\<close> is declared in \<open>swoc/RBTree.h\<close>. It empties the
  link on side \<open>dir\<close>; like \<open>set_child\<close> with an absent child it touches no
  back-reference.
\<close>

definition clear_child :: "state \<Rightarrow> addr \<Rightarrow> Direction \<Rightarrow> state" where
  "clear_child s this dir =
     (if dir = LEFT then set_left s this None
      else if dir = RIGHT then set_right s this None else s)"

text \<open>
  Modelled from the spec: \<open>structure_fixup\<close> is the virtual hook declared in
  \<open>swoc/RBTree.h\<close>; the base class does nothing, a derived node recomputes its cached
  data from its current children. The model records the call.
\<close>

definition structure_fixup :: "state \<Rightarrow> addr \<Rightarrow> state" where
  "structure_fixup s this = s\<lparr>fixups := fixups s @ [(this, left_of s this, right_of s this)]\<rparr>"

text \<open>
  \<open>RBNode::set_child\<close> (line 77). The C++ function returns its argument \<open>child\<close>; the
  model returns the new state.
\<close>

definition set_child :: "state \<Rightarrow> addr \<Rightarrow> addr option \<Rightarrow> Direction \<Rightarrow> state" where
  "set_child s this child dir =
     (let s1 = (case child of None \<Rightarrow> s | Some c \<Rightarrow> set_parent s c (Some this))
      in if dir = RIGHT then set_right s1 this child
         else if dir = LEFT then set_left s1 this child
         else s1)"

text \<open>\<open>RBNode::rotate\<close> (line 51); named \<open>rotate_rb\<close> here, \<open>rotate\<close> being a function on
  lists in HOL.\<close>

definition rotate_rb :: "state \<Rightarrow> addr \<Rightarrow> Direction \<Rightarrow> state \<times> addr" where
  "rotate_rb s this dir =
     (let parent = parent_of s this;
          child_dir = (case parent of None \<Rightarrow> NONE
                       | Some p \<Rightarrow> direction_of s p (Some this));
          other_dir = flip dir
      in case (if dir \<noteq> NONE then child_at s this other_dir else None) of
           None \<Rightarrow> (s, this)
         | Some child \<Rightarrow>
             (let s1 = clear_child s this other_dir;
                  s2 = set_child s1 this (child_at s1 child dir) other_dir;
                  s3 = clear_child s2 child dir;
                  s4 = set_child s3 child (Some this) dir;
                  s5 = structure_fixup s4 child;
                  s6 = structure_fixup s5 this;
                  s7 = (case parent of
                          Some p \<Rightarrow> set_child (clear_child s6 p child_dir) p (Some child) child_dir
                        | None \<Rightarrow> set_parent s6 child None)
              in (s7, child)))"

text \<open>
  \<open>RBNode::ripple_structure_fixup\<close> (line 91): the loop walks the parent links, so on
  a store whose parent links form a cycle it does not return (\<open>None\<close>).
\<close>

partial_function (option) ripple_loop :: "state \<Rightarrow> addr \<Rightarrow> addr option \<Rightarrow> (state \<times> addr) option" where
  "ripple_loop s root p =
     (case p of
        None \<Rightarrow> Some (s, root)
      | Some a \<Rightarrow> (let s1 = structure_fixup s a in ripple_loop s1 a (parent_of s1 a)))"

declare ripple_loop.simps [code]

definition ripple_structure_fixup :: "state \<Rightarrow> addr \<Rightarrow> (state \<times> addr) option" where
  "ripple_structure_fixup s this = ripple_loop s this (Some this)"

text \<open>
  \<open>RBNode::replace_with\<close> (line 104). \<open>_parent\<close> is read again at line 111 and line
  112; the call at line 110 passes an absent child and so does not write it.
\<close>

definition replace_with :: "state \<Rightarrow> addr \<Rightarrow> addr \<Rightarrow> state" where
  "replace_with s this n =
     (let s1 = set_color s n (color_of s this);
          s2 = (case parent_of s1 this of
                  Some p \<Rightarrow>
                    (let d = direction_of s1 p (Some this);
                         s1a = set_child s1 p None d
                     in if p \<noteq> n then set_child s1a p (Some n) d else s1a)
                | None \<Rightarrow> set_parent s1 n None);
          s3 = set_left (set_right s2 n None) n None;
          s4 = (if left_of s3 this \<noteq> None \<and> left_of s3 this \<noteq> Some n
                then set_child s3 n (left_of s3 this) LEFT else s3);
          s5 = (if right_of s4 this \<noteq> None \<and> right_of s4 this \<noteq> Some n
                then set_child s4 n (right_of s4 this) RIGHT else s4)
      in set_left (set_right s5 this None) this None)"


text \<open>\<open>RBNode::left_most_descendant\<close> (line 369).\<close>

partial_function (option) lmd_loop :: "state \<Rightarrow> addr \<Rightarrow> addr option" where
  "lmd_loop s n = (case left_of s n of None \<Rightarrow> Some n | Some l \<Rightarrow> lmd_loop s l)"

declare lmd_loop.simps [code]

definition left_most_descendant :: "state \<Rightarrow> addr \<Rightarrow> addr option" where
  "left_most_descendant s this = lmd_loop s this"

subsection \<open>Rebalancing after an insertion\<close>

text \<open>
  One pass through the body of the \<open>while\<close> loop of \<open>rebalance_after_insert\<close>
  (lines 134 to 158), entered with \<open>x\<close> present and \<open>x->_parent\<close> \<open>RED\<close>.
  \<open>Break\<close> is the \<open>break\<close> of line 139; \<open>Continue x\<close> goes back to the loop test.
\<close>

definition rai_iter :: "state \<Rightarrow> addr \<Rightarrow> error + (state \<times> addr option flow)" where
  "rai_iter s x =
     (case parent_of s x of
        None \<Rightarrow> Inl NullDeref
      | Some p \<Rightarrow>
          (case parent_of s p of
             None \<Rightarrow> Inr (s, Break)
           | Some g \<Rightarrow>
               (let child_dir = direction_of s g (Some p);
                    other_dir = flip child_dir;
                    y = child_at s g other_dir
                in case (if ptr_color s y = RED then y else None) of
                     Some ya \<Rightarrow>
                       (let s1 = set_color s p BLACK;
                            s2 = set_color s1 ya BLACK;
                            s3 = set_color s2 g RED
                        in Inr (s3, Continue (Some g)))
                   | None \<Rightarrow>
                       (let (s1, x1) = (if child_at s p other_dir = Some x
                                        then (fst (rotate_rb s p child_dir), p) else (s, x))
                        in case parent_of s1 x1 of
                             None \<Rightarrow> Inl NullDeref
                           | Some p1 \<Rightarrow>
                               (let s2 = set_color s1 p1 BLACK
                                in case parent_of s2 p1 of
                                     None \<Rightarrow> Inl NullDeref
                                   | Some g1 \<Rightarrow>
                                       (let s3 = set_color s2 g1 RED;
                                            s4 = fst (rotate_rb s3 g1 other_dir)
                                        in Inr (s4, Continue (Some x1))))))))"

partial_function (option) rai_loop :: "state \<Rightarrow> addr option \<Rightarrow> (error + state) option" where
  "rai_loop s x =
     (case x of
        None \<Rightarrow> Some (Inr s)
      | Some xa \<Rightarrow>
          if ptr_color s (parent_of s xa) = RED
          then (case rai_iter s xa of
                  Inl e \<Rightarrow> Some (Inl e)
                | Inr (s1, Break) \<Rightarrow> Some (Inr s1)
                | Inr (s1, Continue x1) \<Rightarrow> rai_loop s1 x1)
          else Some (Inr s))"

declare rai_loop.simps [code]

text \<open>\<open>RBNode::rebalance_after_insert\<close> (line 128): returns the new state and the root.\<close>

definition rebalance_after_insert :: "state \<Rightarrow> addr \<Rightarrow> (error + state \<times> addr) option" where
  "rebalance_after_insert s this =
     (case rai_loop s (Some this) of
        None \<Rightarrow> None
      | Some (Inl e) \<Rightarrow> Some (Inl e)
      | Some (Inr s1) \<Rightarrow>
          (case ripple_structure_fixup s1 this of
             None \<Rightarrow> None
           | Some (s2, root) \<Rightarrow> Some (Inr (set_color s2 root BLACK, root))))"

subsection \<open>Rebalancing after a removal\<close>

text \<open>
  The second half of the body of the \<open>while (parent)\<close> loop of \<open>rebalance_after_remove\<close>
  (lines 296 to 315), with the sibling \<open>w\<close> in hand. \<open>Continue (n, parent, d)\<close> goes back
  to the loop test with the new values of the three variables; \<open>Break\<close> is the \<open>break\<close>
  of line 314. Every pointer the source dereferences without a test is a \<open>NullDeref\<close>
  branch here.
\<close>

definition rar_fix ::
  "state \<Rightarrow> addr \<Rightarrow> Direction \<Rightarrow> Direction \<Rightarrow> addr
     \<Rightarrow> error + (state \<times> (addr option \<times> addr option \<times> Direction) flow)" where
  "rar_fix s1 parent near far w =
     (let wfc = child_at s1 w far
      in if ptr_color s1 (child_at s1 w near) = BLACK \<and> ptr_color s1 wfc = BLACK
         then (let s2 = set_color s1 w RED
               in Inr (s2, Continue (Some parent, parent_of s2 parent, NONE)))
         else
           (case (if ptr_color s1 wfc = BLACK
                  then (case child_at s1 w near of
                          None \<Rightarrow> Inl NullDeref
                        | Some wn \<Rightarrow>
                            (let sa = set_color s1 wn BLACK;
                                 sb = set_color sa w RED;
                                 sc = fst (rotate_rb sb w far)
                             in case child_at sc parent far of
                                  None \<Rightarrow> Inl NullDeref
                                | Some w2 \<Rightarrow> Inr (sc, w2, child_at sc w2 far)))
                  else Inr (s1, w, wfc)) of
              Inl e \<Rightarrow> Inl e
            | Inr (s3, w3, wfc3) \<Rightarrow>
                (let s4 = set_color s3 w3 (color_of s3 parent);
                     s5 = set_color s4 parent BLACK
                 in case wfc3 of
                      None \<Rightarrow> Inl NullDeref
                    | Some f \<Rightarrow>
                        (let s6 = set_color s5 f BLACK;
                             s7 = fst (rotate_rb s6 parent near)
                         in Inr (s7, Break)))))"

text \<open>
  One pass through the body of the loop (lines 273 to 316), entered with \<open>parent\<close>
  present: the test of \<open>n\<close>, the choice of \<open>near\<close> and \<open>far\<close>, the sibling and the case of
  a red sibling (lines 287 to 294), then the second half.
\<close>

definition rar_iter ::
  "state \<Rightarrow> addr option \<Rightarrow> addr \<Rightarrow> Direction
     \<Rightarrow> error + (state \<times> (addr option \<times> addr option \<times> Direction) flow)" where
  "rar_iter s n parent d =
     (case (case n of None \<Rightarrow> None
            | Some na \<Rightarrow> if ptr_color s n = RED then Some na else None) of
        Some na \<Rightarrow> Inr (set_color s na BLACK, Break)
      | None \<Rightarrow>
          (let (near, far) =
                 (if (d = NONE \<and> direction_of s parent n = RIGHT) \<or> d = RIGHT
                  then (RIGHT, LEFT) else (LEFT, RIGHT))
           in case child_at s parent far of
                None \<Rightarrow> Inl NullDeref
              | Some w0 \<Rightarrow>
                  (let (s1, w1) =
                         (if color_of s w0 = RED
                          then (let sa = set_color s w0 BLACK;
                                    sb = set_color sa parent RED;
                                    sc = fst (rotate_rb sb parent near)
                                in (sc, child_at sc parent far))
                          else (s, Some w0))
                   in case w1 of
                        None \<Rightarrow> Inl NullDeref
                      | Some w \<Rightarrow> rar_fix s1 parent near far w)))"

partial_function (option) rar_loop ::
  "state \<Rightarrow> addr option \<Rightarrow> addr option \<Rightarrow> Direction \<Rightarrow> (error + state) option" where
  "rar_loop s n parent d =
     (case parent of
        None \<Rightarrow> Some (Inr s)
      | Some p \<Rightarrow>
          (case rar_iter s n p d of
             Inl e \<Rightarrow> Some (Inl e)
           | Inr (s1, Break) \<Rightarrow> Some (Inr s1)
           | Inr (s1, Continue (n1, p1, d1)) \<Rightarrow> rar_loop s1 n1 p1 d1))"

declare rar_loop.simps [code]

text \<open>\<open>RBNode::rebalance_after_remove\<close> (line 254): returns the new state and the root.\<close>

definition rebalance_after_remove ::
  "state \<Rightarrow> addr \<Rightarrow> Color \<Rightarrow> Direction \<Rightarrow> (error + state \<times> addr) option" where
  "rebalance_after_remove s this c d =
     (case (if BLACK = c
            then (if NONE \<noteq> d then rar_loop s None (Some this) d
                  else rar_loop s (Some this) (parent_of s this) d)
            else Some (Inr s)) of
        None \<Rightarrow> None
      | Some (Inl e) \<Rightarrow> Some (Inl e)
      | Some (Inr s1) \<Rightarrow>
          (case ripple_structure_fixup s1 this of
             None \<Rightarrow> None
           | Some r \<Rightarrow> Some (Inr r)))"

subsection \<open>Removal\<close>

text \<open>
  Lines 208 to 242 of \<open>RBNode::remove\<close>: with \<open>remove_node\<close> chosen, detach it and, when
  it is not \<open>this\<close>, put it in the place of \<open>this\<close>. The result is the new state and the
  three arguments of the call of \<open>rebalance_after_remove\<close> at line 244: the node it is
  called on (\<open>splice_node\<close>), \<open>remove_color\<close> and \<open>d\<close>.
\<close>

definition remove_splice ::
  "state \<Rightarrow> addr \<Rightarrow> addr \<Rightarrow> error + (state \<times> addr \<times> Color \<times> Direction)" where
  "remove_splice s this remove_node =
     (let remove_color = color_of s remove_node;
          d = NONE;
          splice_node = (case left_of s remove_node of
                           Some l \<Rightarrow> Some l | None \<Rightarrow> right_of s remove_node)
      in case (case splice_node of
                 Some sp \<Rightarrow> Inr (replace_with s remove_node sp, sp, color_of s sp, d)
               | None \<Rightarrow>
                   (case parent_of s remove_node of
                      None \<Rightarrow> Inl NullDeref
                    | Some sp \<Rightarrow>
                        (let d1 = direction_of s sp (Some remove_node)
                         in Inr (set_child s sp None d1, sp, remove_color, d1)))) of
           Inl e \<Rightarrow> Inl e
         | Inr (s1, sp, rc, d2) \<Rightarrow>
             (if remove_node \<noteq> this
              then Inr (replace_with s1 this remove_node,
                        (if sp = this then remove_node else sp), rc, d2)
              else Inr (s1, sp, rc, d2)))"

text \<open>\<open>RBNode::remove\<close> (line 171), named \<open>remove_rb\<close> here: returns the new state and the new root, absent when
  the tree has become empty.\<close>

definition remove_rb :: "state \<Rightarrow> addr \<Rightarrow> (error + state \<times> addr option) option" where
  "remove_rb s this =
     (if parent_of s this = None \<and> \<not> (left_of s this \<noteq> None \<and> right_of s this \<noteq> None)
      then (case left_of s this of
              Some l \<Rightarrow> Some (Inr (set_color (set_parent s l None) l BLACK, Some l))
            | None \<Rightarrow>
                (case right_of s this of
                   Some r \<Rightarrow> Some (Inr (set_color (set_parent s r None) r BLACK, Some r))
                 | None \<Rightarrow> Some (Inr (s, None))))
      else
        (case (case right_of s this of
                 Some r \<Rightarrow> if left_of s this \<noteq> None then left_most_descendant s r else Some this
               | None \<Rightarrow> Some this) of
           None \<Rightarrow> None
         | Some remove_node \<Rightarrow>
             (case remove_splice s this remove_node of
                Inl e \<Rightarrow> Some (Inl e)
              | Inr (s1, splice_node, remove_color, d) \<Rightarrow>
                  (case rebalance_after_remove s1 splice_node remove_color d of
                     None \<Rightarrow> None
                   | Some (Inl e) \<Rightarrow> Some (Inl e)
                   | Some (Inr (s2, root)) \<Rightarrow> Some (Inr (set_color s2 root BLACK, Some root))))))"

subsection \<open>Validation\<close>

text \<open>
  \<open>RBNode::validate\<close> (line 327). The recursive check is between \<open>#if 0\<close> and \<open>#else\<close>;
  what is compiled is the \<open>#else\<close> branch, \<open>return 0\<close>.
\<close>

definition validate :: "state \<Rightarrow> addr \<Rightarrow> int" where
  "validate s this = 0"

section \<open>Notions used to state the properties\<close>

text \<open>The chain of ancestors of a node: the node itself, its parent, and so on up to a
  node without a parent.\<close>

fun anc_path :: "state \<Rightarrow> addr \<Rightarrow> addr list \<Rightarrow> bool" where
  "anc_path s a [] = False"
| "anc_path s a [x] = (x = a \<and> parent_of s a = None)"
| "anc_path s a (x # y # ys) = (x = a \<and> parent_of s a = Some y \<and> anc_path s y (y # ys))"

text \<open>In-order traversal of the nodes below a pointer, to a bounded depth.\<close>

fun inorder_of :: "nat \<Rightarrow> state \<Rightarrow> addr option \<Rightarrow> addr list" where
  "inorder_of 0 s p = []"
| "inorder_of (Suc k) s p =
     (case p of None \<Rightarrow> []
      | Some a \<Rightarrow> inorder_of k s (left_of s a) @ [a] @ inorder_of k s (right_of s a))"

text \<open>
  The links around a node \<open>x\<close> that is about to be rotated towards \<open>dir\<close> are those of a
  tree: the child \<open>c\<close> on the other side and the inner grandchild refer back to their
  parents, and the parent of \<open>x\<close> is a third node, with no link to \<open>c\<close>.
\<close>

definition rot_ready :: "state \<Rightarrow> addr \<Rightarrow> Direction \<Rightarrow> addr \<Rightarrow> bool" where
  "rot_ready s x dir c =
     (dir \<noteq> NONE \<and> child_at s x (flip dir) = Some c \<and> c \<noteq> x \<and> parent_of s c = Some x
      \<and> (case child_at s c dir of None \<Rightarrow> True | Some b \<Rightarrow> parent_of s b = Some c)
      \<and> parent_of s x \<noteq> Some c \<and> parent_of s x \<noteq> Some x
      \<and> (case parent_of s x of None \<Rightarrow> True | Some p \<Rightarrow> direction_of s p (Some c) = NONE))"

text \<open>Mutual consistency of the links at a node \<open>p\<close>: the nodes whose parent is \<open>p\<close> are
  the nodes \<open>p\<close> links to.\<close>

definition links_agree :: "state \<Rightarrow> addr \<Rightarrow> bool" where
  "links_agree s p =
     (\<forall>x. parent_of s x = Some p \<longleftrightarrow> (left_of s p = Some x \<or> right_of s p = Some x))"

text \<open>The node \<open>remove\<close> detaches: the successor when the target has two children, else
  the target (line 204).\<close>

definition remove_node_of :: "state \<Rightarrow> addr \<Rightarrow> addr option" where
  "remove_node_of s this =
     (case right_of s this of
        Some r \<Rightarrow> if left_of s this \<noteq> None then left_most_descendant s r else Some this
      | None \<Rightarrow> Some this)"

text \<open>The child of the detached node that is promoted into its place (line 216).\<close>

definition promoted_child :: "state \<Rightarrow> addr \<Rightarrow> addr option" where
  "promoted_child s remove_node =
     (case left_of s remove_node of Some l \<Rightarrow> Some l | None \<Rightarrow> right_of s remove_node)"

section \<open>Trees in the store\<close>

text \<open>
  The shape a set of linked nodes has: a tree of addresses with their colours. It is used
  to state what the functions do to a tree; the code itself only sees the store.
\<close>

datatype ptree = Tip | Fork ptree addr Color ptree

fun inord :: "ptree \<Rightarrow> addr list" where
  "inord Tip = []"
| "inord (Fork l a c r) = inord l @ a # inord r"

fun rootp :: "ptree \<Rightarrow> addr option" where
  "rootp Tip = None"
| "rootp (Fork l a c r) = Some a"

text \<open>The colour of the root; an empty tree counts as black, like a null pointer.\<close>

fun rootcol :: "ptree \<Rightarrow> Color" where
  "rootcol Tip = BLACK"
| "rootcol (Fork l a c r) = c"

text \<open>\<open>sub d t\<close> is the subtree on side \<open>d\<close> of the root of \<open>t\<close>; \<open>fork d t a c u\<close> is the
  tree with root \<open>a\<close>, \<open>t\<close> on side \<open>d\<close> and \<open>u\<close> on the other side.\<close>

fun sub :: "Direction \<Rightarrow> ptree \<Rightarrow> ptree" where
  "sub d Tip = Tip"
| "sub d (Fork l a c r) = (if d = LEFT then l else if d = RIGHT then r else Tip)"

definition fork :: "Direction \<Rightarrow> ptree \<Rightarrow> addr \<Rightarrow> Color \<Rightarrow> ptree \<Rightarrow> ptree" where
  "fork d t a c u = (if d = LEFT then Fork t a c u else Fork u a c t)"

fun paint :: "Color \<Rightarrow> ptree \<Rightarrow> ptree" where
  "paint c Tip = Tip"
| "paint c (Fork l a c0 r) = Fork l a c r"

text \<open>
  \<open>tr s par t\<close>: in the store of \<open>s\<close> the nodes of \<open>t\<close> are linked as \<open>t\<close> says, with their
  colours, every node below the root naming its parent, and the root naming \<open>par\<close>.
\<close>

fun tr :: "state \<Rightarrow> addr option \<Rightarrow> ptree \<Rightarrow> bool" where
  "tr s par Tip = True"
| "tr s par (Fork l a c r) =
     (parent_of s a = par \<and> color_of s a = c
      \<and> left_of s a = rootp l \<and> right_of s a = rootp r
      \<and> tr s (Some a) l \<and> tr s (Some a) r)"

text \<open>
  The way from a subtree up to the root of the whole tree: for each ancestor, the side on
  which the way arrives, the ancestor, its colour, and the subtree on its other side.
\<close>

datatype frame = Frame Direction addr Color ptree

fun plug :: "ptree \<Rightarrow> frame list \<Rightarrow> ptree" where
  "plug t [] = t"
| "plug t (Frame d a c u # fs) = plug (fork d t a c u) fs"

fun ptop :: "frame list \<Rightarrow> addr option" where
  "ptop [] = None"
| "ptop (Frame d a c u # fs) = Some a"

fun path_ok :: "state \<Rightarrow> addr option \<Rightarrow> frame list \<Rightarrow> bool" where
  "path_ok s q [] = True"
| "path_ok s q (Frame d a c u # fs) =
     (d \<noteq> NONE \<and> child_at s a d = q \<and> child_at s a (flip d) = rootp u
      \<and> color_of s a = c \<and> parent_of s a = ptop fs
      \<and> tr s (Some a) u \<and> path_ok s (Some a) fs)"

text \<open>\<open>zipper s t fs\<close>: the subtree \<open>t\<close> and the way \<open>fs\<close> from it to the root are in the store.\<close>

definition zipper :: "state \<Rightarrow> ptree \<Rightarrow> frame list \<Rightarrow> bool" where
  "zipper s t fs = (tr s (ptop fs) t \<and> path_ok s (rootp t) fs)"

text \<open>The nodes before and after the subtree in the in-order sequence of the whole tree.\<close>

fun before :: "frame list \<Rightarrow> addr list" where
  "before [] = []"
| "before (Frame d a c u # fs) = before fs @ (if d = LEFT then [] else inord u @ [a])"

fun after :: "frame list \<Rightarrow> addr list" where
  "after [] = []"
| "after (Frame d a c u # fs) = (if d = LEFT then a # inord u else []) @ after fs"

text \<open>The ancestors on the way, nearest first.\<close>

fun ancestors :: "frame list \<Rightarrow> addr list" where
  "ancestors [] = []"
| "ancestors (Frame d a c u # fs) = a # ancestors fs"

subsection \<open>What the primitives do to a tree\<close>

text \<open>Writing the colour of node \<open>a\<close>.\<close>

fun recolor :: "addr \<Rightarrow> Color \<Rightarrow> ptree \<Rightarrow> ptree" where
  "recolor a col Tip = Tip"
| "recolor a col (Fork l b c r) =
     Fork (recolor a col l) b (if b = a then col else c) (recolor a col r)"

fun recolor_frame :: "addr \<Rightarrow> Color \<Rightarrow> frame \<Rightarrow> frame" where
  "recolor_frame a col (Frame d b c u) = Frame d b (if b = a then col else c) (recolor a col u)"

text \<open>Rotating the root of a tree towards \<open>dir\<close>: nothing happens when \<open>dir\<close> is \<open>NONE\<close> or
  when there is no subtree on the other side.\<close>

fun rot :: "Direction \<Rightarrow> ptree \<Rightarrow> ptree" where
  "rot dir Tip = Tip"
| "rot dir (Fork l x cx r) =
     (case sub (flip dir) (Fork l x cx r) of
        Tip \<Rightarrow> Fork l x cx r
      | Fork wl c cc wr \<Rightarrow>
          fork dir (fork dir (sub dir (Fork l x cx r)) x cx (sub dir (Fork wl c cc wr)))
            c cc (sub (flip dir) (Fork wl c cc wr)))"

text \<open>A subtree and its way to the root are in the store, and no node occurs twice.\<close>

definition wfz :: "state \<Rightarrow> ptree \<Rightarrow> frame list \<Rightarrow> bool" where
  "wfz s t fs = (zipper s t fs \<and> distinct (inord (plug t fs)))"

subsection \<open>One pass of the loop of \<open>rebalance_after_remove\<close>, on trees\<close>

datatype 'a outcome = Fault | Done 'a | Again 'a

text \<open>
  The subtree \<open>Tn\<close> below \<open>n\<close> is one black node short; \<open>Frame near p cp W0\<close> says that it
  hangs on side \<open>near\<close> of \<open>parent\<close> \<open>p\<close>, whose other subtree \<open>W0\<close> is the sibling. The
  result is \<open>Fault\<close> where the code dereferences a null pointer, \<open>Done\<close> with the new
  subtree and its way to the root after a \<open>break\<close>, and \<open>Again\<close> with the subtree below
  the new \<open>n\<close> when the loop goes on. First the second half, for a sibling \<open>W1\<close> with root
  \<open>w\<close>, then the whole pass.
\<close>

definition rar_fix_abs ::
  "ptree \<Rightarrow> Direction \<Rightarrow> addr \<Rightarrow> Color \<Rightarrow> ptree \<Rightarrow> addr \<Rightarrow> frame list
     \<Rightarrow> (ptree \<times> frame list) outcome" where
  "rar_fix_abs Tn near p cp1 W1 w fs1 =
     (let Wn = sub near W1; Wf = sub (flip near) W1
      in if rootcol Wn = BLACK \<and> rootcol Wf = BLACK
         then Again (fork near Tn p cp1 (paint RED W1), fs1)
         else
           (case (if rootcol Wf = BLACK
                  then (case Wn of
                          Tip \<Rightarrow> None
                        | Fork nl wn cn nr \<Rightarrow>
                            Some (wn, sub near Wn, fork near (sub (flip near) Wn) w RED Wf))
                  else Some (w, Wn, Wf)) of
              None \<Rightarrow> Fault
            | Some (w2, W2n, W2f) \<Rightarrow>
                (case W2f of
                   Tip \<Rightarrow> Fault
                 | Fork fl f cf fr \<Rightarrow>
                     Done (fork near (fork near Tn p BLACK W2n) w2 cp1 (paint BLACK W2f), fs1))))"

definition rar_abs :: "ptree \<Rightarrow> frame \<Rightarrow> frame list \<Rightarrow> (ptree \<times> frame list) outcome" where
  "rar_abs Tn fr fs =
     (case fr of Frame near p cp W0 \<Rightarrow>
        if rootcol Tn = RED then Done (paint BLACK Tn, Frame near p cp W0 # fs)
        else
          (case W0 of
             Tip \<Rightarrow> Fault
           | Fork wl0 w0 cw0 wr0 \<Rightarrow>
               (let (cp1, W1, fs1) =
                      (if cw0 = RED
                       then (RED, sub near W0, Frame near w0 BLACK (sub (flip near) W0) # fs)
                       else (cp, W0, fs))
                in case W1 of
                     Tip \<Rightarrow> Fault
                   | Fork wl w cw wr \<Rightarrow> rar_fix_abs Tn near p cp1 W1 w fs1)))"

text \<open>What decreases from one pass of the loop to the next.\<close>

definition rar_measure :: "ptree \<Rightarrow> frame list \<Rightarrow> nat" where
  "rar_measure Tn fs = 2 * length fs + (if rootcol Tn = RED then 0 else 1)"

subsection \<open>The red-black invariants\<close>

text \<open>Black height: the number of black nodes on the leftmost way down.\<close>

fun bh :: "ptree \<Rightarrow> nat" where
  "bh Tip = 0"
| "bh (Fork l a c r) = bh l + (if c = BLACK then 1 else 0)"

text \<open>Every way from a node down to an absent child crosses the same number of black
  nodes.\<close>

fun balanced :: "ptree \<Rightarrow> bool" where
  "balanced Tip = True"
| "balanced (Fork l a c r) = (bh l = bh r \<and> balanced l \<and> balanced r)"

text \<open>No red node has a red child.\<close>

fun no_red_red :: "ptree \<Rightarrow> bool" where
  "no_red_red Tip = True"
| "no_red_red (Fork l a c r) =
     ((c = RED \<longrightarrow> rootcol l = BLACK \<and> rootcol r = BLACK) \<and> no_red_red l \<and> no_red_red r)"

text \<open>
  The same two invariants for the way from a subtree to the root. \<open>ctx_bal k fs\<close>: with a
  balanced subtree of black height \<open>k\<close> at its start, the whole tree is balanced.
  \<open>ctx_rr c fs\<close>: with a subtree without red-red pair whose root has colour \<open>c\<close> at its
  start, the whole tree has no red-red pair.
\<close>

fun ctx_bal :: "nat \<Rightarrow> frame list \<Rightarrow> bool" where
  "ctx_bal k [] = True"
| "ctx_bal k (Frame d a c u # fs) =
     (balanced u \<and> bh u = k \<and> ctx_bal (k + (if c = BLACK then 1 else 0)) fs)"

fun ctx_rr :: "Color \<Rightarrow> frame list \<Rightarrow> bool" where
  "ctx_rr c0 [] = True"
| "ctx_rr c0 (Frame d a c u # fs) =
     ((c = RED \<longrightarrow> c0 = BLACK \<and> rootcol u = BLACK) \<and> no_red_red u \<and> ctx_rr c fs)"

text \<open>The colour of the root of the whole tree.\<close>

fun ctx_rootcol :: "Color \<Rightarrow> frame list \<Rightarrow> Color" where
  "ctx_rootcol c0 [] = c0"
| "ctx_rootcol c0 (Frame d a c u # fs) = ctx_rootcol c fs"

text \<open>
  What the loop of \<open>rebalance_after_remove\<close> needs in order not to dereference a null
  pointer: the subtree below \<open>n\<close> is red at its root (the loop then stops), or it is
  balanced and one black node short of what its place in the tree asks for.
\<close>

definition rar_safe :: "ptree \<Rightarrow> frame list \<Rightarrow> bool" where
  "rar_safe Tn fs = (rootcol Tn = RED \<or> (balanced Tn \<and> ctx_bal (Suc (bh Tn)) fs))"

text \<open>
  What the loop of \<open>rebalance_after_remove\<close> keeps when the tree was a red-black tree
  before the removal: the subtree below \<open>n\<close> is balanced and one black node short, it
  has no red-red pair below its root, and the rest of the tree has none once the root of
  the subtree is black.
\<close>

definition rar_inv :: "ptree \<Rightarrow> frame list \<Rightarrow> bool" where
  "rar_inv Tn fs =
     (balanced Tn \<and> ctx_bal (Suc (bh Tn)) fs \<and> no_red_red (paint BLACK Tn) \<and> ctx_rr BLACK fs)"

text \<open>A tree that is a red-black tree once its root is painted black.\<close>

definition rb_shape :: "ptree \<Rightarrow> bool" where
  "rb_shape t = (balanced t \<and> no_red_red (paint BLACK t))"

text \<open>
  \<open>rb_tree key s p t\<close>: the pointer \<open>p\<close> is the root of the tree \<open>t\<close> in the store, and \<open>t\<close>
  is a red-black tree: the root has no parent and is black, the keys are strictly
  ascending in order, no red node has a red child, and the black height is uniform.
\<close>

definition rb_tree :: "(addr \<Rightarrow> 'k::linorder) \<Rightarrow> state \<Rightarrow> addr option \<Rightarrow> ptree \<Rightarrow> bool" where
  "rb_tree key s p t =
     (p = rootp t \<and> tr s None t \<and> sorted_wrt (<) (map key (inord t))
      \<and> rootcol t = BLACK \<and> no_red_red t \<and> balanced t)"

subsection \<open>Concrete stores\<close>

definition mk_node :: "Color \<Rightarrow> addr option \<Rightarrow> addr option \<Rightarrow> addr option \<Rightarrow> RBNode" where
  "mk_node c p l r = \<lparr>n_color = c, n_parent = p, n_left = l, n_right = r\<rparr>"

text \<open>A store given by the list of its linked nodes; every other address holds an
  unlinked node.\<close>

definition mk_state :: "(addr \<times> RBNode) list \<Rightarrow> state" where
  "mk_state ns =
     \<lparr>heap = (\<lambda>a. case map_of ns a of Some n \<Rightarrow> n | None \<Rightarrow> mk_node RED None None None),
      fixups = []\<rparr>"

text \<open>
  The tree with root 2 (black), children 1 and 4 (black), and 3 and 5 (red) below 4.
\<close>

definition tree5 :: state where
  "tree5 = mk_state
     [(2, mk_node BLACK None (Some 1) (Some 4)),
      (1, mk_node BLACK (Some 2) None None),
      (4, mk_node BLACK (Some 2) (Some 3) (Some 5)),
      (3, mk_node RED (Some 4) None None),
      (5, mk_node RED (Some 4) None None)]"

text \<open>A tree with two red nodes in a row: root 2 (black), its left child 1 (red), and 0
  (red) below 1.\<close>

definition redred :: state where
  "redred = mk_state
     [(2, mk_node BLACK None (Some 1) None),
      (1, mk_node RED (Some 2) (Some 0) None),
      (0, mk_node RED (Some 1) None None)]"

text \<open>The tree with root 2 (black), children 1 and 4 (black), and 5 (red) the right child
  of 4.\<close>

definition tree4 :: state where
  "tree4 = mk_state
     [(2, mk_node BLACK None (Some 1) (Some 4)),
      (1, mk_node BLACK (Some 2) None None),
      (4, mk_node BLACK (Some 2) None (Some 5)),
      (5, mk_node RED (Some 4) None None)]"

text \<open>The tree \<open>tree5\<close> after its black leaf 1 has been unlinked from the root, before any
  rebalancing.\<close>

definition tree5_cut :: state where
  "tree5_cut = mk_state
     [(2, mk_node BLACK None None (Some 4)),
      (4, mk_node BLACK (Some 2) (Some 3) (Some 5)),
      (3, mk_node RED (Some 4) None None),
      (5, mk_node RED (Some 4) None None)]"

text \<open>The tree \<open>tree4\<close>, and beside it node 3, which is in no tree but still names node 4
  as its parent, as a node removed earlier does.\<close>

definition tree4_stale :: state where
  "tree4_stale = mk_state
     [(2, mk_node BLACK None (Some 1) (Some 4)),
      (1, mk_node BLACK (Some 2) None None),
      (4, mk_node BLACK (Some 2) None (Some 5)),
      (5, mk_node RED (Some 4) None None),
      (3, mk_node RED (Some 4) None None)]"

section \<open>Reading a field after a write\<close>

text \<open>The links are read through \<open>child_at\<close>, so that a fact can be stated once for both
  sides.\<close>

lemma left_of_conv [simp]: "left_of s a = child_at s a LEFT"
  and right_of_conv [simp]: "right_of s a = child_at s a RIGHT"
  by (simp_all add: child_at_def)

lemma child_at_NONE [simp]: "child_at s a NONE = None"
  by (simp add: child_at_def)

lemma flip_flip [simp]: "flip (flip d) = d"
  by (cases d) simp_all

lemma flip_eq_NONE [simp]: "(flip d = NONE) = (d = NONE)"
  by (cases d) simp_all

lemma flip_neq [simp]: "d \<noteq> NONE \<Longrightarrow> flip d \<noteq> d" "d \<noteq> NONE \<Longrightarrow> d \<noteq> flip d"
  by (cases d; simp)+

lemma color_of_upd [simp]:
  "color_of (set_color s a c) b = (if b = a then c else color_of s b)"
  "color_of (set_parent s a p) b = color_of s b"
  "color_of (set_left s a p) b = color_of s b"
  "color_of (set_right s a p) b = color_of s b"
  "color_of (structure_fixup s a) b = color_of s b"
  by (simp_all add: color_of_def set_color_def set_parent_def set_left_def set_right_def
      structure_fixup_def)

lemma parent_of_upd [simp]:
  "parent_of (set_color s a c) b = parent_of s b"
  "parent_of (set_parent s a p) b = (if b = a then p else parent_of s b)"
  "parent_of (set_left s a p) b = parent_of s b"
  "parent_of (set_right s a p) b = parent_of s b"
  "parent_of (structure_fixup s a) b = parent_of s b"
  by (simp_all add: parent_of_def set_color_def set_parent_def set_left_def set_right_def
      structure_fixup_def)

lemma child_at_upd [simp]:
  "child_at (set_color s a c) b d = child_at s b d"
  "child_at (set_parent s a p) b d = child_at s b d"
  "child_at (set_left s a p) b d = (if b = a \<and> LEFT = d then p else child_at s b d)"
  "child_at (set_right s a p) b d = (if b = a \<and> RIGHT = d then p else child_at s b d)"
  "child_at (structure_fixup s a) b d = child_at s b d"
  by (simp_all add: child_at_def left_of_def right_of_def set_color_def set_parent_def
      set_left_def set_right_def structure_fixup_def del: left_of_conv right_of_conv)

lemma fixups_upd [simp]:
  "fixups (set_color s a c) = fixups s"
  "fixups (set_parent s a p) = fixups s"
  "fixups (set_left s a p) = fixups s"
  "fixups (set_right s a p) = fixups s"
  "fixups (structure_fixup s a) = fixups s @ [(a, child_at s a LEFT, child_at s a RIGHT)]"
  by (simp_all add: set_color_def set_parent_def set_left_def set_right_def
      structure_fixup_def)

lemma heap_structure_fixup [simp]: "heap (structure_fixup s a) = heap s"
  by (simp add: structure_fixup_def)

lemma heap_eqI:
  assumes "\<And>a. color_of s a = color_of t a" "\<And>a. parent_of s a = parent_of t a"
    "\<And>a d. child_at s a d = child_at t a d"
  shows "heap s = heap t"
proof
  fix a
  have "n_left (heap s a) = n_left (heap t a)" "n_right (heap s a) = n_right (heap t a)"
    using assms(3) [of a LEFT] assms(3) [of a RIGHT]
    by (simp_all add: child_at_def left_of_def right_of_def del: left_of_conv right_of_conv)
  then show "heap s a = heap t a"
    using assms(1,2) [of a] by (simp add: color_of_def parent_of_def)
qed

lemma state_eqI: "heap s = heap t \<Longrightarrow> fixups s = fixups t \<Longrightarrow> s = (t :: state)"
  by simp

subsection \<open>The fields after \<open>set_child\<close> and \<open>clear_child\<close>\<close>

lemma set_child_fields [simp]:
  "parent_of (set_child s p c d) a = (if c = Some a then Some p else parent_of s a)"
  "child_at (set_child s p c d) a e = (if a = p \<and> d = e \<and> d \<noteq> NONE then c else child_at s a e)"
  "color_of (set_child s p c d) a = color_of s a"
  "fixups (set_child s p c d) = fixups s"
  by (cases d; cases c; auto simp: set_child_def Let_def)+

lemma clear_child_fields [simp]:
  "parent_of (clear_child s p d) a = parent_of s a"
  "child_at (clear_child s p d) a e = (if a = p \<and> d = e \<and> d \<noteq> NONE then None else child_at s a e)"
  "color_of (clear_child s p d) a = color_of s a"
  "fixups (clear_child s p d) = fixups s"
  by (cases d; auto simp: clear_child_def)+

lemma direction_of_conv:
  "direction_of s a n =
     (if n = child_at s a LEFT then LEFT else if n = child_at s a RIGHT then RIGHT else NONE)"
  by (simp add: direction_of_def)

lemma child_at_direction_of:
  "direction_of s a n \<noteq> NONE \<Longrightarrow> child_at s a (direction_of s a n) = n"
  by (simp add: direction_of_conv split: if_splits)

subsection \<open>The fields after a rotation\<close>

lemma rotate_rb_skip:
  "dir = NONE \<or> child_at s x (flip dir) = None \<Longrightarrow> rotate_rb s x dir = (s, x)"
  by (cases dir) (auto simp: rotate_rb_def Let_def)

lemma rotate_rb_snd:
  "dir \<noteq> NONE \<Longrightarrow> child_at s x (flip dir) = Some c \<Longrightarrow> snd (rotate_rb s x dir) = c"
  by (simp add: rotate_rb_def Let_def)

lemma rotate_rb_color [simp]: "color_of (fst (rotate_rb s x dir)) a = color_of s a"
  by (simp add: rotate_rb_def Let_def split: option.splits)

lemma rotate_rb_parent:
  assumes "dir \<noteq> NONE" "child_at s x (flip dir) = Some c" "c \<noteq> x"
  shows "parent_of (fst (rotate_rb s x dir)) a =
     (if a = c then parent_of s x else if a = x then Some c
      else if child_at s c dir = Some a then Some x else parent_of s a)"
  using assms by (simp add: rotate_rb_def Let_def split: option.splits)

lemma rotate_rb_Some:
  assumes "dir \<noteq> NONE" "child_at s x (flip dir) = Some c" "parent_of s x = Some p"
  shows "fst (rotate_rb s x dir) = set_child (clear_child (structure_fixup (structure_fixup
      (set_child (clear_child (set_child (clear_child s x (flip dir)) x (child_at (clear_child s x (flip dir)) c dir) (flip dir)) c dir) c (Some x) dir) c) x) p (direction_of s p (Some x))) p (Some c) (direction_of s p (Some x))"
    using assms by (simp add: rotate_rb_def Let_def)

lemma rotate_rb_child:
  assumes "dir \<noteq> NONE" "child_at s x (flip dir) = Some c" "c \<noteq> x"
  shows "child_at (fst (rotate_rb s x dir)) a e =
     (if parent_of s x = Some a \<and> direction_of s a (Some x) = e \<and> e \<noteq> NONE then Some c
      else if a = c \<and> dir = e then Some x
      else if a = x \<and> flip dir = e then child_at s c dir
      else child_at s a e)"
proof (cases "parent_of s x")
  case None
  with assms show ?thesis by (simp add: rotate_rb_def Let_def)
next
  case (Some p)
  show ?thesis
    unfolding rotate_rb_Some [OF assms(1,2) Some]
    using assms Some by simp
qed

lemma rotate_rb_fixups:
  assumes "dir \<noteq> NONE" "child_at s x (flip dir) = Some c" "c \<noteq> x"
   "parent_of s x \<noteq> Some x" "parent_of s x \<noteq> Some c"
  shows "fixups (fst (rotate_rb s x dir)) =
     fixups s @ [(c, child_at (fst (rotate_rb s x dir)) c LEFT, child_at (fst (rotate_rb s x dir)) c RIGHT),
                 (x, child_at (fst (rotate_rb s x dir)) x LEFT, child_at (fst (rotate_rb s x dir)) x RIGHT)]"
  unfolding rotate_rb_child [OF assms(1-3)] 
  using assms by (cases "parent_of s x") (auto simp add: rotate_rb_def Let_def)

subsection \<open>The walk to the root\<close>

lemma ripple_loop_None: "ripple_loop s r None = Some (s, r)"
  by (subst ripple_loop.simps) simp

lemma ripple_loop_Some:
  "ripple_loop s r (Some a) = ripple_loop (structure_fixup s a) a (parent_of s a)"
  by (subst ripple_loop.simps) (simp add: Let_def)

lemma anc_path_cong:
  "(\<And>b. parent_of s b = parent_of s' b) \<Longrightarrow> anc_path s a ps = anc_path s' a ps"
  by (induction s a ps rule: anc_path.induct) auto

lemma anc_path_hd: "anc_path s a ps \<Longrightarrow> \<exists>qs. ps = a # qs"
  by (cases ps; cases "tl ps"; simp)

lemma foldl_fixup_fields [simp]:
  "parent_of (foldl structure_fixup s ps) b = parent_of s b"
  "color_of (foldl structure_fixup s ps) b = color_of s b"
  "child_at (foldl structure_fixup s ps) b d = child_at s b d"
  "heap (foldl structure_fixup s ps) = heap s"
  "fixups (foldl structure_fixup s ps) =
     fixups s @ map (\<lambda>b. (b, child_at s b LEFT, child_at s b RIGHT)) ps"
  by (induction ps arbitrary: s; simp)+

lemma ripple_loop_total:
  "anc_path s a ps \<Longrightarrow>
   ripple_loop s r0 (Some a) = Some (foldl structure_fixup s ps, last ps)"
proof (induction ps arbitrary: s a r0)
  case Nil
  then show ?case by simp
next
  case (Cons x ps)
  show ?case
  proof (cases ps)
    case Nil
    with Cons.prems show ?thesis
      by (simp add: ripple_loop_Some ripple_loop_None)
  next
    case (Cons y ys)
    with Cons.prems have a: "x = a" "parent_of s a = Some y" "anc_path s y ps"
      by simp_all
    have "anc_path (structure_fixup s a) y ps"
      using a(3) anc_path_cong [of "structure_fixup s a" s y ps] by simp
    from Cons.IH [OF this] a Cons show ?thesis
      by (simp add: ripple_loop_Some)
  qed
qed

lemma ripple_loop_heap:
  assumes "ripple_loop s r p = Some y"
  shows "heap (fst y) = heap s"
proof (rule ripple_loop.raw_induct [where P = "\<lambda>s r p y. heap (fst y) = heap s", OF _ assms])
  fix f s root p sa
  assume IH: "\<And>s r p y. f s r p = Some y \<Longrightarrow> heap (fst y) = heap s"
    and b: "(case p of None \<Rightarrow> Some (s, root)
      | Some a \<Rightarrow> let s1 = structure_fixup s a in f s1 a (parent_of s1 a)) = Some sa"
  show "heap (fst sa) = heap s"
  proof (cases p)
    case None
    with b show ?thesis by auto
  next
    case (Some a)
    with b have "f (structure_fixup s a) a (parent_of s a) = Some sa" by (simp add: Let_def)
    from IH [OF this] show ?thesis by simp
  qed
qed

lemma rar_RED:
  "rebalance_after_remove s this RED d = map_option Inr (ripple_structure_fixup s this)"
  by (simp add: rebalance_after_remove_def split: option.splits)

lemma direction_of_upd [simp]:
  "direction_of (set_color s a c) b n = direction_of s b n"
  "direction_of (set_parent s a p) b n = direction_of s b n"
  "direction_of (structure_fixup s a) b n = direction_of s b n"
  by (simp_all add: direction_of_conv)

section \<open>Trees in the store: basic facts\<close>

lemma rootp_fork [simp]: "rootp (fork d t a c u) = Some a"
  and rootcol_fork [simp]: "rootcol (fork d t a c u) = c"
  by (simp_all add: fork_def)

lemma fork_neq_Tip [simp]: "fork d t a c u \<noteq> Tip"
  by (simp add: fork_def)

lemma sub_fork [simp]:
  "d \<noteq> NONE \<Longrightarrow> sub d (fork d t a c u) = t"
  "d \<noteq> NONE \<Longrightarrow> sub (flip d) (fork d t a c u) = u"
  by (cases d; simp add: fork_def)+

lemma fork_sub:
  "d \<noteq> NONE \<Longrightarrow> fork d (sub d (Fork l a c r)) a c (sub (flip d) (Fork l a c r)) = Fork l a c r"
  by (cases d; simp add: fork_def)

lemma set_inord_fork [simp]:
  "set (inord (fork d t a c u)) = insert a (set (inord t) \<union> set (inord u))"
  by (auto simp: fork_def)

lemma distinct_inord_fork [simp]:
  "distinct (inord (fork d t a c u)) =
     (distinct (inord t) \<and> distinct (inord u) \<and> a \<notin> set (inord t) \<and> a \<notin> set (inord u)
      \<and> set (inord t) \<inter> set (inord u) = {})"
  by (auto simp: fork_def)

lemma tr_fork:
  "d \<noteq> NONE \<Longrightarrow>
   tr s par (fork d t a c u) =
     (parent_of s a = par \<and> color_of s a = c \<and> child_at s a d = rootp t
      \<and> child_at s a (flip d) = rootp u \<and> tr s (Some a) t \<and> tr s (Some a) u)"
  by (cases d) (auto simp: fork_def)

lemma balanced_fork [simp]:
  "balanced (fork d t a c u) = (bh t = bh u \<and> balanced t \<and> balanced u)"
  by (auto simp: fork_def)

lemma bh_fork [simp]:
  "bh t = bh u \<Longrightarrow> bh (fork d t a c u) = bh t + (if c = BLACK then 1 else 0)"
  by (simp add: fork_def)

lemma no_red_red_fork [simp]:
  "no_red_red (fork d t a c u) =
     ((c = RED \<longrightarrow> rootcol t = BLACK \<and> rootcol u = BLACK) \<and> no_red_red t \<and> no_red_red u)"
  by (auto simp: fork_def)

lemma rootp_None [simp]: "(rootp t = None) = (t = Tip)" "(None = rootp t) = (t = Tip)"
  by (cases t; simp)+

lemma rootp_Some: "rootp t = Some a \<Longrightarrow> \<exists>l c r. t = Fork l a c r"
  by (cases t) simp_all

lemma rootp_in_inord: "rootp t = Some a \<Longrightarrow> a \<in> set (inord t)"
  by (cases t) auto

text \<open>What \<open>tr\<close> reads: the fields of the nodes of the tree.\<close>

lemma tr_cong:
  assumes "\<And>a. a \<in> set (inord t) \<Longrightarrow>
      color_of s' a = color_of s a \<and> parent_of s' a = parent_of s a
      \<and> (\<forall>d. child_at s' a d = child_at s a d)"
  shows "tr s' par t = tr s par t"
  using assms by (induction t arbitrary: par) auto

text \<open>The same when the parent of the root is given a new value.\<close>

lemma tr_move:
  assumes "tr s par t" and "distinct (inord t)"
    and "\<And>a. a \<in> set (inord t) \<Longrightarrow>
      color_of s' a = color_of s a \<and> (\<forall>d. child_at s' a d = child_at s a d)
      \<and> (rootp t \<noteq> Some a \<longrightarrow> parent_of s' a = parent_of s a)"
    and "\<And>a. rootp t = Some a \<Longrightarrow> parent_of s' a = par'"
  shows "tr s' par' t"
proof (cases t)
  case Tip
  then show ?thesis by simp
next
  case (Fork l a c r)
  have "tr s' (Some a) l = tr s (Some a) l"
    using assms(2,3) Fork by (intro tr_cong) auto
  moreover have "tr s' (Some a) r = tr s (Some a) r"
    using assms(2,3) Fork by (intro tr_cong) auto
  ultimately show ?thesis
    using assms Fork by auto
qed

lemma inord_plug: "inord (plug t fs) = before fs @ inord t @ after fs"
proof (induction fs arbitrary: t)
  case Nil
  show ?case by simp
next
  case (Cons f fs)
  then show ?case by (cases f) (simp add: fork_def)
qed

lemma zipper_Nil: "zipper s t [] = tr s None t"
  by (simp add: zipper_def)

lemma zipper_up:
  "zipper s t (Frame d a c u # fs) = (d \<noteq> NONE \<and> zipper s (fork d t a c u) fs)"
  by (auto simp: zipper_def tr_fork)

lemma zipper_plug: "zipper s t fs \<Longrightarrow> tr s None (plug t fs)"
proof (induction fs arbitrary: t)
  case Nil
  then show ?case by (simp add: zipper_Nil)
next
  case (Cons f fs)
  then show ?case by (cases f) (simp add: zipper_up)
qed

lemma zipper_find:
  "zipper s t fs \<Longrightarrow> x \<in> set (inord t) \<Longrightarrow>
   \<exists>l c r gs. plug t fs = plug (Fork l x c r) gs \<and> zipper s (Fork l x c r) gs"
proof (induction t arbitrary: fs)
  case Tip
  then show ?case by simp
next
  case (Fork l a c r)
  show ?case
  proof (cases "x = a")
    case True
    with Fork.prems show ?thesis by blast
  next
    case False
    with Fork.prems consider "x \<in> set (inord l)" | "x \<in> set (inord r)" by auto
    then show ?thesis
    proof cases
      case 1
      have "zipper s l (Frame LEFT a c r # fs)"
        using Fork.prems(1) by (simp add: zipper_up fork_def)
      from Fork.IH(1) [OF this 1] show ?thesis by (simp add: fork_def)
    next
      case 2
      have "zipper s r (Frame RIGHT a c l # fs)"
        using Fork.prems(1) by (simp add: zipper_up fork_def)
      from Fork.IH(2) [OF this 2] show ?thesis by (simp add: fork_def)
    qed
  qed
qed

lemma tr_find:
  "tr s None t \<Longrightarrow> x \<in> set (inord t) \<Longrightarrow>
   \<exists>l c r gs. t = plug (Fork l x c r) gs \<and> zipper s (Fork l x c r) gs"
  using zipper_find [of s t "[]" x] by (simp add: zipper_Nil)

subsection \<open>The way to the root\<close>

lemma path_ok_cong:
  assumes "\<And>a. a \<in> set (before fs) \<union> set (after fs) \<Longrightarrow>
      color_of s' a = color_of s a \<and> parent_of s' a = parent_of s a
      \<and> (\<forall>d. child_at s' a d = child_at s a d)"
  shows "path_ok s' q fs = path_ok s q fs"
  using assms
proof (induction fs arbitrary: q)
  case Nil
  show ?case by simp
next
  case (Cons f fs)
  obtain d a c u where f: "f = Frame d a c u" by (cases f)
  have 1: "tr s' (Some a) u = tr s (Some a) u"
    using Cons.prems by (intro tr_cong) (auto simp: f)
  have 2: "path_ok s' (Some a) fs = path_ok s (Some a) fs"
    using Cons.prems by (intro Cons.IH) (auto simp: f)
  have 3: "color_of s' a = color_of s a \<and> parent_of s' a = parent_of s a
      \<and> (\<forall>d. child_at s' a d = child_at s a d)"
    using Cons.prems [of a] by (auto simp: f)
  show ?case by (simp add: f 1 2 3)
qed

lemma ancestors_Nil [simp]: "(ancestors fs = []) = (fs = [])"
  by (cases fs rule: ancestors.cases) auto

lemma rootp_plug:
  "rootp (plug t fs) = (if fs = [] then rootp t else Some (last (ancestors fs)))"
proof (induction fs arbitrary: t)
  case Nil
  show ?case by simp
next
  case (Cons f fs)
  then show ?case by (cases f; cases fs) auto
qed

lemma path_ok_anc_path:
  "path_ok s (Some x) fs \<Longrightarrow> parent_of s x = ptop fs \<Longrightarrow> anc_path s x (x # ancestors fs)"
proof (induction fs arbitrary: x)
  case Nil
  then show ?case by simp
next
  case (Cons f fs)
  then show ?case by (cases f) auto
qed

lemma zipper_anc_path:
  assumes "zipper s (Fork l x c r) fs"
  shows "anc_path s x (x # ancestors fs)"
    and "rootp (plug (Fork l x c r) fs) = Some (last (x # ancestors fs))"
  using assms path_ok_anc_path [of s x fs]
  by (auto simp: zipper_def rootp_plug)

subsection \<open>Writing a colour\<close>

lemma inord_recolor [simp]: "inord (recolor a col t) = inord t"
  by (induction t) auto

lemma rootp_recolor [simp]: "rootp (recolor a col t) = rootp t"
  by (cases t) auto

lemma recolor_notin [simp]: "a \<notin> set (inord t) \<Longrightarrow> recolor a col t = t"
  by (induction t) auto

lemma recolor_fork [simp]:
  "recolor a col (fork d t b c u) = fork d (recolor a col t) b (if b = a then col else c) (recolor a col u)"
  by (simp add: fork_def)

lemma tr_set_color: "tr s par t \<Longrightarrow> tr (set_color s a col) par (recolor a col t)"
  by (induction t arbitrary: par) auto

lemma before_recolor [simp]: "before (map (recolor_frame a col) fs) = before fs"
  and after_recolor [simp]: "after (map (recolor_frame a col) fs) = after fs"
  and ptop_recolor [simp]: "ptop (map (recolor_frame a col) fs) = ptop fs"
  and ancestors_recolor [simp]: "ancestors (map (recolor_frame a col) fs) = ancestors fs"
  by (induction fs rule: before.induct; simp)+

lemma recolor_frames_notin [simp]:
  "a \<notin> set (before fs) \<Longrightarrow> a \<notin> set (after fs) \<Longrightarrow> map (recolor_frame a col) fs = fs"
  by (induction fs rule: before.induct) (auto split: if_splits)

lemma path_ok_set_color:
  "path_ok s q fs \<Longrightarrow> path_ok (set_color s a col) q (map (recolor_frame a col) fs)"
  by (induction fs arbitrary: q rule: before.induct) (auto simp: tr_set_color)

lemma zipper_set_color:
  "zipper s t fs \<Longrightarrow> zipper (set_color s a col) (recolor a col t) (map (recolor_frame a col) fs)"
  by (simp add: zipper_def tr_set_color path_ok_set_color)

lemma plug_recolor:
  "plug (recolor a col t) (map (recolor_frame a col) fs) = recolor a col (plug t fs)"
proof (induction fs arbitrary: t)
  case Nil
  show ?case by simp
next
  case (Cons f fs)
  obtain d b c u where f: "f = Frame d b c u" by (cases f)
  show ?case
    by (simp add: f Cons.IH [symmetric])
qed

subsection \<open>Rotation\<close>

lemma rot_NONE [simp]: "rot NONE t = t"
  by (cases t) simp_all

lemma rot_fork:
  "dir \<noteq> NONE \<Longrightarrow>
   rot dir (fork dir A x cx (fork dir B c cc C)) = fork dir (fork dir A x cx B) c cc C"
  by (cases dir) (simp_all add: fork_def)

lemma rot_fork_Tip: "rot dir (fork dir A x cx Tip) = fork dir A x cx Tip"
  by (cases dir) (simp_all add: fork_def)

lemma inord_rot [simp]: "inord (rot dir t) = inord t"
proof (cases t)
  case Tip
  then show ?thesis by simp
next
  case (Fork l x cx r)
  then show ?thesis
    by (cases dir; cases l; cases r) (simp_all add: fork_def)
qed

lemma ptree_fork_cases:
  assumes "rootp t = Some x" "dir \<noteq> NONE"
  obtains A cx where "t = fork dir A x cx Tip"
  | A cx B c cc C where "t = fork dir A x cx (fork dir B c cc C)"
proof -
  from assms(1) obtain l cx r where t: "t = Fork l x cx r" by (auto dest: rootp_Some)
  have t2: "t = fork dir (sub dir t) x cx (sub (flip dir) t)"
    using fork_sub [OF assms(2), of l x cx r] by (simp add: t)
  show ?thesis
  proof (cases "sub (flip dir) t")
    case Tip
    with t2 that(1) show ?thesis by metis
  next
    case (Fork wl c cc wr)
    have "Fork wl c cc wr = fork dir (sub dir (Fork wl c cc wr)) c cc (sub (flip dir) (Fork wl c cc wr))"
      using fork_sub [OF assms(2), of wl c cc wr] by simp
    with t2 Fork that(2) show ?thesis by metis
  qed
qed

lemma direction_of_frame:
  assumes "d \<noteq> NONE" "child_at s p d = Some x" "child_at s p (flip d) = rootp u"
    "x \<notin> set (inord u)"
  shows "direction_of s p (Some x) = d"
proof -
  from assms(3,4) have "child_at s p (flip d) \<noteq> Some x"
    by (auto dest: rootp_in_inord)
  with assms(1,2) show ?thesis
    by (cases d) (auto simp: direction_of_conv)
qed

lemma ptop_in_ancestors: "ptop fs = Some a \<Longrightarrow> a \<in> set (before fs) \<union> set (after fs)"
  by (cases fs rule: ptop.cases) auto

lemma zipper_rotate:
  assumes z: "zipper s T fs" and dist: "distinct (inord (plug T fs))" and rt: "rootp T = Some x"
  shows "zipper (fst (rotate_rb s x dir)) (rot dir T) fs
     \<and> rootp (rot dir T) = Some (snd (rotate_rb s x dir))"
proof (cases "dir = NONE")
  case True
  with z rt show ?thesis by (simp add: rotate_rb_skip)
next
  case dir: False
  from rt dir show ?thesis
  proof (cases rule: ptree_fork_cases)
    case (1 A cx)
    with z dir have "child_at s x (flip dir) = None"
      by (simp add: zipper_def tr_fork)
    with z 1 show ?thesis by (simp add: rotate_rb_skip rot_fork_Tip)
  next
    case (2 A cx B c cc C)
    define s' where "s' = fst (rotate_rb s x dir)"
    from z dir have t: "parent_of s x = ptop fs" "color_of s x = cx" "child_at s x dir = rootp A"
      "child_at s x (flip dir) = Some c" "tr s (Some x) A" "parent_of s c = Some x"
      "color_of s c = cc" "child_at s c dir = rootp B" "child_at s c (flip dir) = rootp C"
      "tr s (Some c) B" "tr s (Some c) C" and p: "path_ok s (Some x) fs"
      by (simp_all add: zipper_def 2 tr_fork)
    from dist have d: "distinct (before fs)" "distinct (after fs)" "distinct (inord A)"
      "distinct (inord B)" "distinct (inord C)" "c \<noteq> x"
      "x \<notin> set (inord A) \<union> set (inord B) \<union> set (inord C) \<union> set (before fs) \<union> set (after fs)"
      "c \<notin> set (inord A) \<union> set (inord B) \<union> set (inord C) \<union> set (before fs) \<union> set (after fs)"
      "set (inord A) \<inter> (set (inord B) \<union> set (inord C) \<union> set (before fs) \<union> set (after fs)) = {}"
      "set (inord B) \<inter> (set (inord C) \<union> set (before fs) \<union> set (after fs)) = {}"
      "set (inord C) \<inter> (set (before fs) \<union> set (after fs)) = {}"
      "set (before fs) \<inter> set (after fs) = {}"
      by (auto simp: inord_plug 2)
    note f = rotate_rb_parent [OF dir t(4) d(6), folded s'_def]
      rotate_rb_child [OF dir t(4) d(6), folded s'_def]
      rotate_rb_color [of s x dir, folded s'_def]
    have notp: "ptop fs \<noteq> Some a" if "a \<in> set (inord A) \<union> set (inord B) \<union> set (inord C) \<union> {x, c}" for a
      using that d ptop_in_ancestors [of fs a] by auto
    have notB: "rootp B \<noteq> Some a" if "a \<notin> set (inord B)" for a
      using that rootp_in_inord [of B a] by auto
    have A: "tr s' (Some x) A"
    proof -
      have "tr s' (Some x) A = tr s (Some x) A"
      proof (rule tr_cong)
        fix a assume a: "a \<in> set (inord A)"
        with d have "a \<noteq> x" "a \<noteq> c" "a \<notin> set (inord B)" by auto
        with notp [of a] notB [of a] a
        show "color_of s' a = color_of s a \<and> parent_of s' a = parent_of s a \<and>
          (\<forall>d. child_at s' a d = child_at s a d)"
          by (simp add: f t)
      qed
      with t(5) show ?thesis by simp
    qed
    have C: "tr s' (Some c) C"
    proof -
      have "tr s' (Some c) C = tr s (Some c) C"
      proof (rule tr_cong)
        fix a assume a: "a \<in> set (inord C)"
        with d have "a \<noteq> x" "a \<noteq> c" "a \<notin> set (inord B)" by auto
        with notp [of a] notB [of a] a
        show "color_of s' a = color_of s a \<and> parent_of s' a = parent_of s a \<and>
          (\<forall>d. child_at s' a d = child_at s a d)"
          by (simp add: f t)
      qed
      with t(11) show ?thesis by simp
    qed
    have B: "tr s' (Some x) B"
      using t(10) d(4) 
    proof (rule tr_move)
      fix a assume a: "a \<in> set (inord B)"
      with d have "a \<noteq> x" "a \<noteq> c" by auto
      with notp [of a] a
      show "color_of s' a = color_of s a \<and> (\<forall>d. child_at s' a d = child_at s a d) \<and>
         (rootp B \<noteq> Some a \<longrightarrow> parent_of s' a = parent_of s a)"
        by (simp add: f t)
    next
      fix a assume a: "rootp B = Some a"
      with d rootp_in_inord [of B a] have "a \<noteq> x" "a \<noteq> c" by auto
      with a show "parent_of s' a = Some x"
        by (simp add: f t)
    qed
    have T: "tr s' (ptop fs) (rot dir T)"
      using A B C d dir notp [of x] notp [of c] by (simp add: 2 rot_fork tr_fork f t)
    have P: "path_ok s' (Some c) fs"
    proof (cases fs)
      case Nil
      then show ?thesis by simp
    next
      case (Cons fr fs')
      obtain e p cp u where fr: "fr = Frame e p cp u" by (cases fr)
      from p have q: "e \<noteq> NONE" "child_at s p e = Some x" "child_at s p (flip e) = rootp u"
        "color_of s p = cp" "parent_of s p = ptop fs'" "tr s (Some p) u" "path_ok s (Some p) fs'"
        by (simp_all add: Cons fr)
      from d have dp: "p \<noteq> x" "p \<noteq> c" "p \<notin> set (inord B)" "p \<notin> set (inord u)"
        "p \<notin> set (before fs') \<union> set (after fs')" "x \<notin> set (inord u)"
        "c \<notin> set (inord u)" "c \<notin> set (before fs') \<union> set (after fs')"
        "x \<notin> set (before fs') \<union> set (after fs')" 
        "set (inord B) \<inter> (set (inord u) \<union> set (before fs') \<union> set (after fs')) = {}"
        by (auto simp: Cons fr split: if_splits)
      have dir_p: "direction_of s p (Some x) = e"
        using q dp by (intro direction_of_frame)
      have px: "parent_of s x = Some p" using t(1) by (simp add: Cons fr)
      have 1: "tr s' (Some p) u = tr s (Some p) u"
      proof (rule tr_cong)
        fix a assume a: "a \<in> set (inord u)"
        with dp have "a \<noteq> x" "a \<noteq> c" "a \<notin> set (inord B)" "a \<noteq> p" by auto
        with notB [of a]
        show "color_of s' a = color_of s a \<and> parent_of s' a = parent_of s a \<and>
          (\<forall>d. child_at s' a d = child_at s a d)"
          by (simp add: f t Cons fr)
      qed
      have 2: "path_ok s' (Some p) fs' = path_ok s (Some p) fs'"
      proof (rule path_ok_cong)
        fix a assume a: "a \<in> set (before fs') \<union> set (after fs')"
        with dp have "a \<noteq> x" "a \<noteq> c" "a \<notin> set (inord B)" "a \<noteq> p" by auto
        with notB [of a]
        show "color_of s' a = color_of s a \<and> parent_of s' a = parent_of s a \<and>
          (\<forall>d. child_at s' a d = child_at s a d)"
          by (simp add: f t Cons fr)
      qed
      show ?thesis
        using q dp notB [of p] dir_p by (simp add: Cons fr 1 2 f t px)
    qed
    have "snd (rotate_rb s x dir) = c"
      using dir t(4) by (rule rotate_rb_snd)
    with T P dir show ?thesis
      by (simp add: zipper_def s'_def 2 rot_fork)
  qed
qed

subsection \<open>Moving the focus, and the primitives at the focus\<close>

lemma fork_flip [simp]: "d \<noteq> NONE \<Longrightarrow> fork (flip d) u a c t = fork d t a c u"
  by (cases d) (simp_all add: fork_def)

lemma plug_fork: "d \<noteq> NONE \<Longrightarrow> plug t (Frame (flip d) a c u # fs) = plug (fork d u a c t) fs"
  by simp

lemma wfz_up: "wfz s t (Frame d a c u # fs) = (d \<noteq> NONE \<and> wfz s (fork d t a c u) fs)"
  by (auto simp: wfz_def zipper_up)

lemma wfz_down:
  "d \<noteq> NONE \<Longrightarrow> wfz s (fork d t a c u) fs \<Longrightarrow> wfz s t (Frame d a c u # fs)"
  "d \<noteq> NONE \<Longrightarrow> wfz s (fork d t a c u) fs \<Longrightarrow> wfz s u (Frame (flip d) a c t # fs)"
  by (simp_all add: wfz_up)

lemma paint_fork [simp]: "paint col (fork d t a c u) = fork d t a col u"
  by (simp add: fork_def)

lemma inord_paint [simp]: "inord (paint c t) = inord t"
  and rootp_paint [simp]: "rootp (paint c t) = rootp t"
  and sub_paint [simp]: "sub d (paint c t) = sub d t"
  by (cases t; simp)+

lemma rootcol_paint [simp]: "t \<noteq> Tip \<Longrightarrow> rootcol (paint c t) = c"
  by (cases t) simp_all

lemma paint_Tip [simp]: "(paint c t = Tip) = (t = Tip)"
  by (cases t) simp_all

lemma recolor_root:
  "rootp t = Some a \<Longrightarrow> distinct (inord t) \<Longrightarrow> recolor a col t = paint col t"
  by (cases t) auto

lemma wfz_paint:
  assumes "wfz s t fs" "rootp t = Some a"
  shows "wfz (set_color s a col) (paint col t) fs"
proof -
  from assms have d: "distinct (inord t)" "a \<notin> set (before fs)" "a \<notin> set (after fs)"
    using rootp_in_inord [of t a] by (auto simp: wfz_def inord_plug)
  from assms(1) have "zipper (set_color s a col) (recolor a col t) (map (recolor_frame a col) fs)"
    by (simp add: wfz_def zipper_set_color)
  with d assms show ?thesis
    by (simp add: recolor_root wfz_def inord_plug)
qed

lemma wfz_rot:
  assumes "wfz s t fs" "rootp t = Some x"
  shows "wfz (fst (rotate_rb s x dir)) (rot dir t) fs"
    and "rootp (rot dir t) = Some (snd (rotate_rb s x dir))"
  using zipper_rotate [of s t fs x dir] assms
  by (simp_all add: wfz_def inord_plug)

lemma wfz_read:
  assumes "wfz s (fork d t a c u) fs" "d \<noteq> NONE"
  shows "parent_of s a = ptop fs" "color_of s a = c" "child_at s a d = rootp t"
    "child_at s a (flip d) = rootp u"
  using assms by (simp_all add: wfz_def zipper_def tr_fork)

lemma tr_ptr_color: "tr s par t \<Longrightarrow> ptr_color s (rootp t) = rootcol t"
  by (cases t) (simp_all add: ptr_color_def)

lemma wfz_ptr_color: "wfz s t fs \<Longrightarrow> ptr_color s (rootp t) = rootcol t"
  by (auto simp: wfz_def zipper_def intro: tr_ptr_color)

lemma wfz_root: 
  assumes "wfz s t fs" "rootp t = Some a"
  shows "parent_of s a = ptop fs" "color_of s a = rootcol t"
    "child_at s a LEFT = rootp (sub LEFT t)" "child_at s a RIGHT = rootp (sub RIGHT t)"
  using assms by (cases t; simp add: wfz_def zipper_def)+

lemma wfz_child: "wfz s t fs \<Longrightarrow> rootp t = Some a \<Longrightarrow> d \<noteq> NONE \<Longrightarrow> child_at s a d = rootp (sub d t)"
  by (cases d) (simp_all add: wfz_root)

lemma tree_as_fork:
  "rootp t = Some a \<Longrightarrow> d \<noteq> NONE \<Longrightarrow> t = fork d (sub d t) a (rootcol t) (sub (flip d) t)"
  by (cases t; cases d) (simp_all add: fork_def)

lemma wfz_sub:
  assumes "wfz s t fs" "rootp t = Some a" "d \<noteq> NONE"
  shows "wfz s (sub d t) (Frame d a (rootcol t) (sub (flip d) t) # fs)"
  using assms tree_as_fork [OF assms(2,3)] by (simp add: wfz_up)

lemma direction_of_wfz:
  assumes "wfz s t (Frame d p c u # fs)" "rootp t = Some a"
  shows "direction_of s p (Some a) = d"
proof -
  from assms have "d \<noteq> NONE" "child_at s p d = Some a" "child_at s p (flip d) = rootp u"
    "a \<notin> set (inord u)"
    using rootp_in_inord [of t a]
    by (auto simp: wfz_def zipper_def inord_plug split: if_splits)
  then show ?thesis by (rule direction_of_frame)
qed

subsection \<open>The primitives one level below the focus\<close>

lemma rot_fork_flip:
  "d \<noteq> NONE \<Longrightarrow>
   rot (flip d) (fork d (fork d C c cc B) x cx A) = fork d C c cc (fork d B x cx A)"
  using rot_fork [of "flip d" A x cx B c cc C] by simp

lemma wfz_paint_far:
  assumes "wfz s (fork d t a c u) fs" "d \<noteq> NONE" "rootp u = Some b"
  shows "wfz (set_color s b col) (fork d t a c (paint col u)) fs"
proof -
  from assms have "wfz s u (Frame (flip d) a c t # fs)" by (simp add: wfz_down)
  from wfz_paint [OF this assms(3)] assms(2) show ?thesis by (simp add: wfz_up)
qed

lemma wfz_paint_near:
  assumes "wfz s (fork d t a c u) fs" "d \<noteq> NONE" "rootp t = Some b"
  shows "wfz (set_color s b col) (fork d (paint col t) a c u) fs"
proof -
  from assms have "wfz s t (Frame d a c u # fs)" by (simp add: wfz_down)
  from wfz_paint [OF this assms(3)] assms(2) show ?thesis by (simp add: wfz_up)
qed

lemma wfz_paint_root:
  assumes "wfz s (fork d t a c u) fs"
  shows "wfz (set_color s a col) (fork d t a col u) fs"
  using wfz_paint [OF assms, of a col] by simp

lemma wfz_rot_far:
  assumes "wfz s (fork d t a c u) fs" "d \<noteq> NONE" "rootp u = Some b"
  shows "wfz (fst (rotate_rb s b dir)) (fork d t a c (rot dir u)) fs"
    and "rootp (rot dir u) = Some (snd (rotate_rb s b dir))"
proof -
  from assms have "wfz s u (Frame (flip d) a c t # fs)" by (simp add: wfz_down)
  from wfz_rot [OF this assms(3)] assms(2)
  show "wfz (fst (rotate_rb s b dir)) (fork d t a c (rot dir u)) fs"
    and "rootp (rot dir u) = Some (snd (rotate_rb s b dir))"
    by (simp_all add: wfz_up)
qed

lemma wfz_read_far:
  assumes "wfz s (fork d t a c u) fs" "d \<noteq> NONE" "rootp u = Some b" "e \<noteq> NONE"
  shows "child_at s b e = rootp (sub e u)" "color_of s b = rootcol u"
    "ptr_color s (rootp (sub e u)) = rootcol (sub e u)"
proof -
  from assms have z: "wfz s u (Frame (flip d) a c t # fs)" by (simp add: wfz_down)
  from wfz_child [OF z assms(3,4)] show "child_at s b e = rootp (sub e u)" .
  from wfz_root(2) [OF z assms(3)] show "color_of s b = rootcol u" .
  from wfz_sub [OF z assms(3,4)] show "ptr_color s (rootp (sub e u)) = rootcol (sub e u)"
    by (rule wfz_ptr_color)
qed

subsection \<open>The loop body of \<open>rebalance_after_remove\<close> follows \<open>rar_abs\<close>\<close>

lemma rar_tail:
  assumes z: "wfz s3 (fork near Tn p cp1 (fork near W2n w3 c3 W2f)) fs1" and near: "near \<noteq> NONE"
  shows "case W2f of
           Tip \<Rightarrow>
             (let s4 = set_color s3 w3 (color_of s3 p); s5 = set_color s4 p BLACK
              in case rootp W2f of
                   None \<Rightarrow> Inl NullDeref
                 | Some f \<Rightarrow> (let s6 = set_color s5 f BLACK; s7 = fst (rotate_rb s6 p near)
                              in Inr (s7, Break :: (addr option \<times> addr option \<times> Direction) flow)))
             = Inl NullDeref
         | Fork fl f cf fr \<Rightarrow>
             (\<exists>s'. (let s4 = set_color s3 w3 (color_of s3 p); s5 = set_color s4 p BLACK
                    in case rootp W2f of
                         None \<Rightarrow> Inl NullDeref
                       | Some f \<Rightarrow> (let s6 = set_color s5 f BLACK; s7 = fst (rotate_rb s6 p near)
                                    in Inr (s7, Break :: (addr option \<times> addr option \<times> Direction) flow)))
                   = Inr (s', Break)
                 \<and> wfz s' (fork near (fork near Tn p BLACK W2n) w3 cp1 (paint BLACK W2f)) fs1)"
proof (cases W2f)
  case Tip
  then show ?thesis by simp
next
  case (Fork fl f cf fr)
  have cp: "color_of s3 p = cp1" using wfz_read(2) [OF z near] .
  define s4 where "s4 = set_color s3 w3 cp1"
  define s5 where "s5 = set_color s4 p BLACK"
  define s6 where "s6 = set_color s5 f BLACK"
  define s7 where "s7 = fst (rotate_rb s6 p near)"
  have "wfz s4 (fork near Tn p cp1 (fork near W2n w3 cp1 W2f)) fs1"
    using wfz_paint_far [OF z near, of w3 cp1] by (simp add: s4_def)
  then have z5: "wfz s5 (fork near Tn p BLACK (fork near W2n w3 cp1 W2f)) fs1"
    unfolding s5_def by (rule wfz_paint_root)
  from z5 near have "wfz s5 (fork near W2n w3 cp1 W2f) (Frame (flip near) p BLACK Tn # fs1)"
    by (simp add: wfz_down)
  from wfz_paint_far [OF this near, of f BLACK] near
  have "wfz s6 (fork near Tn p BLACK (fork near W2n w3 cp1 (paint BLACK W2f))) fs1"
    by (simp add: s6_def wfz_up Fork)
  from wfz_rot(1) [OF this, of p near] near
  have "wfz s7 (fork near (fork near Tn p BLACK W2n) w3 cp1 (paint BLACK W2f)) fs1"
    by (simp add: s7_def rot_fork)
  then show ?thesis
    by (simp add: Fork cp s4_def s5_def s6_def s7_def Let_def)
qed


lemma rar_fix_refines:
  assumes z: "wfz s (fork near Tn p cp1 W1) fs1" and near: "near \<noteq> NONE"
    and rw: "rootp W1 = Some w"
  shows "case rar_fix_abs Tn near p cp1 W1 w fs1 of
           Fault \<Rightarrow> rar_fix s p near (flip near) w = Inl NullDeref
         | Done (T', fs') \<Rightarrow>
             (\<exists>s'. rar_fix s p near (flip near) w = Inr (s', Break) \<and> wfz s' T' fs')
         | Again (T', fs') \<Rightarrow>
             (\<exists>s'. rar_fix s p near (flip near) w = Inr (s', Continue (rootp T', ptop fs', NONE))
                  \<and> wfz s' T' fs')"
proof -
  define Wn where "Wn = sub near W1"
  define Wf where "Wf = sub (flip near) W1"
  define cw where "cw = rootcol W1"
  have W1: "W1 = fork near Wn w cw Wf"
    using tree_as_fork [OF rw near] by (simp add: Wn_def Wf_def cw_def)
  have far: "flip near \<noteq> NONE" using near by simp
  note rd = wfz_read_far [OF z near rw]
  have r: "child_at s w near = rootp Wn" "child_at s w (flip near) = rootp Wf"
    "ptr_color s (rootp Wn) = rootcol Wn" "ptr_color s (rootp Wf) = rootcol Wf"
    using rd(1,3) [OF near] rd(1,3) [OF far] by (simp_all add: Wn_def Wf_def)
  show ?thesis
  proof (cases "rootcol Wn = BLACK \<and> rootcol Wf = BLACK")
    case True
    have "wfz (set_color s w RED) (fork near Tn p cp1 (paint RED W1)) fs1"
      using z near rw by (rule wfz_paint_far)
    moreover from this have "parent_of (set_color s w RED) p = ptop fs1"
      using near by (rule wfz_read)
    ultimately show ?thesis
      using True
      by (simp add: rar_fix_abs_def rar_fix_def Let_def r Wn_def [symmetric] Wf_def [symmetric])
  next
    case nb: False
    show ?thesis
    proof (cases "rootcol Wf = BLACK")
      case fb: True
      with nb have nr: "rootcol Wn \<noteq> BLACK" by simp
      then obtain nl wn cn nr' where Wn: "Wn = Fork nl wn cn nr'" by (cases Wn) auto
      define A where "A = sub near Wn"
      define B where "B = sub (flip near) Wn"
      have Wn2: "paint BLACK Wn = fork near A wn BLACK B"
        using tree_as_fork [of "paint BLACK Wn" wn near] near by (simp add: Wn A_def B_def)
      have rn: "rootp Wn = Some wn" by (simp add: Wn)
      define sa where "sa = set_color s wn BLACK"
      define sb where "sb = set_color sa w RED"
      define sc where "sc = fst (rotate_rb sb w (flip near))"
      from z near have "wfz s (fork near Wn w cw Wf) (Frame (flip near) p cp1 Tn # fs1)"
        by (simp add: wfz_down W1)
      from wfz_paint_near [OF this near rn, of BLACK]
      have "wfz sa (fork near (paint BLACK Wn) w cw Wf) (Frame (flip near) p cp1 Tn # fs1)"
        by (simp add: sa_def)
      then have "wfz sb (fork near (paint BLACK Wn) w RED Wf) (Frame (flip near) p cp1 Tn # fs1)"
        unfolding sb_def by (rule wfz_paint_root)
      from wfz_rot(1) [OF this, of w "flip near"] near
      have zc: "wfz sc (fork near Tn p cp1 (fork near A wn BLACK (fork near B w RED Wf))) fs1"
        by (simp add: sc_def Wn2 rot_fork_flip wfz_up)
      have c1: "child_at sc p (flip near) = Some wn"
        using wfz_read(4) [OF zc near] by simp
      have c2: "child_at sc wn (flip near) = Some w"
        using wfz_read_far(1) [OF zc near _ far, of wn] near by simp
      from rar_tail [OF zc near]
      obtain s' where s': "(let s4 = set_color sc wn (color_of sc p); s5 = set_color s4 p BLACK;
                s6 = set_color s5 w BLACK; s7 = fst (rotate_rb s6 p near)
             in Inr (s7, Break :: (addr option \<times> addr option \<times> Direction) flow)) = Inr (s', Break)"
         "wfz s' (fork near (fork near Tn p BLACK A) wn cp1 (paint BLACK (fork near B w RED Wf))) fs1"
        by (auto simp: fork_def Let_def split: if_splits)
      have abs: "rar_fix_abs Tn near p cp1 W1 w fs1 =
          Done (fork near (fork near Tn p BLACK A) wn cp1 (paint BLACK (fork near B w RED Wf)), fs1)"
        using nb fb
        by (simp add: rar_fix_abs_def Let_def Wn_def [symmetric] Wf_def [symmetric] Wn
            A_def B_def fork_def)
      have "rar_fix s p near (flip near) w = Inr (s', Break)"
        using nb fb s'(1) c1 c2
        by (simp add: rar_fix_def Let_def r r [unfolded rn] rn sa_def [symmetric]
            sb_def [symmetric] sc_def [symmetric])
      with abs s'(2) show ?thesis by simp
    next
      case fr: False
      then obtain fl f cf fr' where Wf: "Wf = Fork fl f cf fr'" by (cases Wf) auto
      from rar_tail [OF z [unfolded W1] near]
      obtain s' where s': "(let s4 = set_color s w (color_of s p); s5 = set_color s4 p BLACK;
                s6 = set_color s5 f BLACK; s7 = fst (rotate_rb s6 p near)
             in Inr (s7, Break :: (addr option \<times> addr option \<times> Direction) flow)) = Inr (s', Break)"
         "wfz s' (fork near (fork near Tn p BLACK Wn) w cp1 (paint BLACK Wf)) fs1"
        by (auto simp: Wf Let_def)
      have abs: "rar_fix_abs Tn near p cp1 W1 w fs1 =
          Done (fork near (fork near Tn p BLACK Wn) w cp1 (paint BLACK Wf), fs1)"
        using nb fr
        by (simp add: rar_fix_abs_def Let_def Wn_def [symmetric] Wf_def [symmetric] Wf)
      have pf: "ptr_color s (Some f) = cf" "child_at s w (flip near) = Some f"
        using r(2,4) by (simp_all add: Wf)
      have "rar_fix s p near (flip near) w = Inr (s', Break)"
        using nb fr s'(1)
        by (simp add: rar_fix_def Let_def pf Wf)
      with abs s'(2) show ?thesis by simp
    qed
  qed
qed

lemma near_far_choice:
  assumes z: "wfz s Tn (Frame near p cp W0 # fs)"
    and dc: "(Tn = Tip \<and> d = near) \<or> (Tn \<noteq> Tip \<and> d = NONE)"
  shows "(if (d = NONE \<and> direction_of s p (rootp Tn) = RIGHT) \<or> d = RIGHT
          then (RIGHT, LEFT) else (LEFT, RIGHT)) = (near, flip near)"
proof -
  from z have near: "near \<noteq> NONE" by (simp add: wfz_up)
  from dc show ?thesis
  proof
    assume "Tn = Tip \<and> d = near"
    with near show ?thesis by (cases near) auto
  next
    assume a: "Tn \<noteq> Tip \<and> d = NONE"
    then obtain a where "rootp Tn = Some a" by (cases Tn) auto
    with direction_of_wfz [OF z this] a near show ?thesis by (cases near) auto
  qed
qed

lemma rar_abs_red:
  "rootcol Tn \<noteq> RED \<Longrightarrow> rootp W0 = Some w0 \<Longrightarrow> rootcol W0 = RED \<Longrightarrow>
   rar_abs Tn (Frame near p cp W0) fs =
     (case sub near W0 of
        Tip \<Rightarrow> Fault
      | Fork wl w cw wr \<Rightarrow>
          rar_fix_abs Tn near p RED (sub near W0) w (Frame near w0 BLACK (sub (flip near) W0) # fs))"
  by (cases W0) (auto simp add: rar_abs_def simp del: sub.simps split: ptree.splits)

lemma rar_abs_black:
  "rootcol Tn \<noteq> RED \<Longrightarrow> rootp W0 = Some w0 \<Longrightarrow> rootcol W0 \<noteq> RED \<Longrightarrow>
   rar_abs Tn (Frame near p cp W0) fs = rar_fix_abs Tn near p cp W0 w0 fs"
  by (cases W0) (simp_all add: rar_abs_def)

lemma rar_iter_refines:
  assumes z: "wfz s Tn (Frame near p cp W0 # fs)"
    and dc: "(Tn = Tip \<and> d = near) \<or> (Tn \<noteq> Tip \<and> d = NONE)"
  shows "case rar_abs Tn (Frame near p cp W0) fs of
           Fault \<Rightarrow> rar_iter s (rootp Tn) p d = Inl NullDeref
         | Done (T', fs') \<Rightarrow>
             (\<exists>s'. rar_iter s (rootp Tn) p d = Inr (s', Break) \<and> wfz s' T' fs')
         | Again (T', fs') \<Rightarrow>
             (\<exists>s'. rar_iter s (rootp Tn) p d = Inr (s', Continue (rootp T', ptop fs', NONE))
                  \<and> wfz s' T' fs')"
proof -
  from z have near: "near \<noteq> NONE" and zP: "wfz s (fork near Tn p cp W0) fs"
    by (simp_all add: wfz_up)
  have pc: "ptr_color s (rootp Tn) = rootcol Tn" using z by (rule wfz_ptr_color)
  show ?thesis
  proof (cases "rootcol Tn = RED")
    case True
    then obtain l na r where Tn: "Tn = Fork l na RED r" by (cases Tn) auto
    have "wfz (set_color s na BLACK) (paint BLACK Tn) (Frame near p cp W0 # fs)"
      using z by (rule wfz_paint) (simp add: Tn)
    moreover have "rar_iter s (rootp Tn) p d = Inr (set_color s na BLACK, Break)"
      using pc by (simp add: rar_iter_def Tn)
    ultimately show ?thesis by (simp add: rar_abs_def Tn)
  next
    case nr: False
    have sel: "(case rootp Tn of None \<Rightarrow> None
            | Some na \<Rightarrow> if ptr_color s (rootp Tn) = RED then Some na else None) = None"
      using nr pc by (cases "rootp Tn") auto
    note nf = near_far_choice [OF z dc]
    have cf: "child_at s p (flip near) = rootp W0" using wfz_read(4) [OF zP near] .
    show ?thesis
    proof (cases W0)
      case Tip
      with nr show ?thesis by (simp add: rar_abs_def rar_iter_def sel nf cf)
    next
      case (Fork wl0 w0 cw0 wr0)
      then have rw0: "rootp W0 = Some w0" by simp
      have cw: "color_of s w0 = cw0" using wfz_read_far(2) [OF zP near rw0 near] Fork by simp
      show ?thesis
      proof (cases "cw0 = RED")
        case red: True
        then have rc0: "rootcol W0 = RED" by (simp add: Fork)
        define W1 where "W1 = sub near W0"
        define Wf where "Wf = sub (flip near) W0"
        define sa where "sa = set_color s w0 BLACK"
        define sb where "sb = set_color sa p RED"
        define sc where "sc = fst (rotate_rb sb p near)"
        have W0: "paint BLACK W0 = fork near W1 w0 BLACK Wf"
          using tree_as_fork [of "paint BLACK W0" w0 near] near by (simp add: Fork W1_def Wf_def)
        have "wfz sa (fork near Tn p cp (paint BLACK W0)) fs"
          unfolding sa_def using zP near rw0 by (rule wfz_paint_far)
        then have "wfz sb (fork near Tn p RED (paint BLACK W0)) fs"
          unfolding sb_def by (rule wfz_paint_root)
        from wfz_rot(1) [OF this, of p near] near
        have zc: "wfz sc (fork near Tn p RED W1) (Frame near w0 BLACK Wf # fs)"
          by (simp add: sc_def W0 rot_fork wfz_up)
        then have zc': "wfz sc (fork near Tn p RED W1) (Frame near w0 BLACK Wf # fs)" .
        have c1: "child_at sc p (flip near) = rootp W1"
          using wfz_read(4) [OF zc near] .
        have it: "rar_iter s (rootp Tn) p d =
           (case rootp W1 of None \<Rightarrow> Inl NullDeref
            | Some w \<Rightarrow> rar_fix sc p near (flip near) w)"
          using red
          by (simp add: rar_iter_def sel nf cf rw0 cw Let_def sa_def [symmetric]
              sb_def [symmetric] sc_def [symmetric] c1)
        show ?thesis
        proof (cases W1)
          case Tip
          with rar_abs_red [OF nr rw0 rc0, of near p cp fs] show ?thesis
            by (simp add: it W1_def [symmetric])
        next
          case W1F: (Fork wl w cw' wr)
          then have rw: "rootp W1 = Some w" by simp
          have ab: "rar_abs Tn (Frame near p cp W0) fs =
              rar_fix_abs Tn near p RED W1 w (Frame near w0 BLACK Wf # fs)"
            using rar_abs_red [OF nr rw0 rc0, of near p cp fs] W1F
            by (simp add: W1_def [symmetric] Wf_def [symmetric])
          have itw: "rar_iter s (rootp Tn) p d = rar_fix sc p near (flip near) w"
            by (simp add: it rw)
          show ?thesis unfolding ab itw using zc near rw by (rule rar_fix_refines)
        qed
      next
        case black: False
        have it: "rar_iter s (rootp Tn) p d = rar_fix s p near (flip near) w0"
          using black by (simp add: rar_iter_def sel nf cf rw0 cw)
        have ab: "rar_abs Tn (Frame near p cp W0) fs = rar_fix_abs Tn near p cp W0 w0 fs"
          using rar_abs_black [OF nr rw0, of near p cp fs] black by (simp add: Fork)
        show ?thesis unfolding ab it using zP near rw0 by (rule rar_fix_refines)
      qed
    qed
  qed
qed

subsection \<open>The loop of \<open>rebalance_after_remove\<close>\<close>

lemma rar_loop_None: "rar_loop s n None d = Some (Inr s)"
  by (subst rar_loop.simps) simp

lemma rar_loop_Some:
  "rar_loop s n (Some p) d =
     (case rar_iter s n p d of
        Inl e \<Rightarrow> Some (Inl e)
      | Inr (s1, Break) \<Rightarrow> Some (Inr s1)
      | Inr (s1, Continue (n1, p1, d1)) \<Rightarrow> rar_loop s1 n1 p1 d1)"
  by (subst rar_loop.simps) simp

lemma rar_fix_abs_Again:
  "rar_fix_abs Tn near p cp1 W1 w fs1 = Again (T', fs') \<Longrightarrow>
   T' = fork near Tn p cp1 (paint RED W1) \<and> fs' = fs1"
  by (auto simp: rar_fix_abs_def Let_def split: if_splits option.splits ptree.splits)

lemma rar_abs_Again:
  assumes "rar_abs Tn (Frame near p cp W0) fs = Again (T', fs')"
  shows "T' \<noteq> Tip \<and> rar_measure T' fs' < rar_measure Tn (Frame near p cp W0 # fs)"
proof -
  from assms have nr: "rootcol Tn \<noteq> RED"
    by (auto simp: rar_abs_def split: if_splits)
  from assms obtain wl0 w0 cw0 wr0 where W0: "W0 = Fork wl0 w0 cw0 wr0"
    by (cases W0) (auto simp: rar_abs_def split: if_splits)
  show ?thesis
  proof (cases "cw0 = RED")
    case True
    with assms nr W0 show ?thesis
      by (auto simp: rar_abs_def rar_measure_def Let_def split: ptree.splits
          dest!: rar_fix_abs_Again)
  next
    case False
    with assms nr W0 show ?thesis
      by (auto simp: rar_abs_def rar_measure_def Let_def split: ptree.splits
          dest!: rar_fix_abs_Again)
  qed
qed

lemma inord_fork: 
  "inord (fork d t a c u) = (if d = LEFT then inord t @ a # inord u else inord u @ a # inord t)"
  by (simp add: fork_def)

lemma inord_sub:
  "rootp t = Some a \<Longrightarrow> d \<noteq> NONE \<Longrightarrow> 
   inord t = (if d = LEFT then inord (sub d t) @ a # inord (sub (flip d) t) 
                          else inord (sub (flip d) t) @ a # inord (sub d t))"
  by (cases t; cases d) auto

lemma rar_fix_abs_inord:
  assumes "near \<noteq> NONE" "rootp W1 = Some w"
  shows "case rar_fix_abs Tn near p cp1 W1 w fs1 of
           Fault \<Rightarrow> True
         | Done (T', fs') \<Rightarrow> fs' = fs1 \<and> inord T' = inord (fork near Tn p cp1 W1)
         | Again (T', fs') \<Rightarrow> fs' = fs1 \<and> inord T' = inord (fork near Tn p cp1 W1)"
  using assms
  by (cases near; cases W1)
    (auto simp: rar_fix_abs_def Let_def fork_def split: ptree.splits)

lemma rar_abs_inord:
  assumes "near \<noteq> NONE"
  shows "case rar_abs Tn (Frame near p cp W0) fs of
           Fault \<Rightarrow> True
         | Done (T', fs') \<Rightarrow> inord (plug T' fs') = inord (plug Tn (Frame near p cp W0 # fs))
         | Again (T', fs') \<Rightarrow> inord (plug T' fs') = inord (plug Tn (Frame near p cp W0 # fs))"
proof (cases "rootcol Tn = RED")
  case True
  then show ?thesis by (simp add: rar_abs_def inord_plug inord_fork)
next
  case nr: False
  show ?thesis
  proof (cases W0)
    case Tip
    with nr show ?thesis by (simp add: rar_abs_def)
  next
    case (Fork wl0 w0 cw0 wr0)
    then have rw0: "rootp W0 = Some w0" by simp
    show ?thesis
    proof (cases "rootcol W0 = RED")
      case red: True
      define W1 where "W1 = sub near W0"
      define Wf where "Wf = sub (flip near) W0"
      have i0: "inord (fork near Tn p cp W0) = inord (fork near (fork near Tn p RED W1) w0 BLACK Wf)"
        using inord_sub [OF rw0 assms] assms
        by (cases near) (auto simp: inord_fork W1_def Wf_def)
      show ?thesis
      proof (cases W1)
        case Tip
        then show ?thesis by (simp add: rar_abs_red [OF nr rw0 red] W1_def [symmetric])
      next
        case F: (Fork wl w cw wr)
        then have rw: "rootp W1 = Some w" by simp
        have ab: "rar_abs Tn (Frame near p cp W0) fs =
            rar_fix_abs Tn near p RED W1 w (Frame near w0 BLACK Wf # fs)"
          using rar_abs_red [OF nr rw0 red, of near p cp fs] F
          by (simp add: W1_def [symmetric] Wf_def [symmetric])
        from rar_fix_abs_inord [OF assms rw, where Tn=Tn and p=p and ?cp1.0=RED
            and ?fs1.0="Frame near w0 BLACK Wf # fs"]
        show ?thesis
          unfolding ab using i0
          by (auto simp add: inord_plug inord_fork split: outcome.splits)
      qed
    next
      case black: False
      from rar_fix_abs_inord [OF assms rw0, where Tn=Tn and p=p and ?cp1.0=cp and ?fs1.0=fs]
      show ?thesis
        by (auto simp add: rar_abs_black [OF nr rw0 black] inord_plug inord_fork
            split: outcome.splits)
    qed
  qed
qed

text \<open>
  The loop, for an invariant \<open>I\<close> of the subtree below \<open>n\<close> and its way to the root that
  excludes a null dereference in the next pass and is kept by the pass, and a property
  \<open>Q\<close> of the whole tree that holds when the loop is left.
\<close>

lemma rar_loop_invariant:
  assumes step: "\<And>Tn near p cp W0 fs. I Tn (Frame near p cp W0 # fs) \<Longrightarrow> near \<noteq> NONE \<Longrightarrow>
      (case rar_abs Tn (Frame near p cp W0) fs of
         Fault \<Rightarrow> False
       | Done (T', fs') \<Rightarrow> Q (plug T' fs')
       | Again (T', fs') \<Rightarrow> I T' fs')"
    and base: "\<And>Tn. I Tn [] \<Longrightarrow> Q Tn"
  shows "wfz s Tn fs \<Longrightarrow> I Tn fs \<Longrightarrow>
     (Tn = Tip \<and> (\<exists>p cp W0 gs. fs = Frame d p cp W0 # gs)) \<or> (Tn \<noteq> Tip \<and> d = NONE) \<Longrightarrow>
     \<exists>s' T'. rar_loop s (rootp Tn) (ptop fs) d = Some (Inr s') \<and> tr s' None T' \<and> Q T'
        \<and> inord T' = inord (plug Tn fs) \<and> distinct (inord T')"
proof (induction "rar_measure Tn fs" arbitrary: s Tn fs d rule: less_induct)
  case less
  show ?case
  proof (cases fs)
    case Nil
    with less.prems base [of Tn] show ?thesis
      by (auto simp: rar_loop_None wfz_def zipper_Nil)
  next
    case (Cons f gs)
    obtain near p cp W0 where f: "f = Frame near p cp W0" by (cases f)
    from less.prems(1) have z: "wfz s Tn (Frame near p cp W0 # gs)" by (simp add: Cons f)
    then have near: "near \<noteq> NONE" by (simp add: wfz_up)
    from less.prems(3) have dc: "(Tn = Tip \<and> d = near) \<or> (Tn \<noteq> Tip \<and> d = NONE)"
      by (auto simp: Cons f)
    note ref = rar_iter_refines [OF z dc]
    note ino = rar_abs_inord [OF near, of Tn p cp W0 gs]
    from step [of Tn near p cp W0 gs] less.prems(2) near
    have st: "case rar_abs Tn (Frame near p cp W0) gs of
         Fault \<Rightarrow> False
       | Done (T', fs') \<Rightarrow> Q (plug T' fs')
       | Again (T', fs') \<Rightarrow> I T' fs'"
      by (simp add: Cons f)
    show ?thesis
    proof (cases "rar_abs Tn (Frame near p cp W0) gs")
      case Fault
      with st show ?thesis by simp
    next
      case (Done r)
      obtain T' fs' where r: "r = (T', fs')" by (cases r)
      from ref Done r obtain s' where s': "rar_iter s (rootp Tn) p d = Inr (s', Break)"
        "wfz s' T' fs'" by auto
      have "tr s' None (plug T' fs')" "distinct (inord (plug T' fs'))"
        using s'(2) by (auto simp: wfz_def intro: zipper_plug)
      moreover have "rar_loop s (rootp Tn) (ptop fs) d = Some (Inr s')"
        by (simp add: Cons f rar_loop_Some s'(1))
      moreover have "Q (plug T' fs')" using st Done r by simp
      moreover have "inord (plug T' fs') = inord (plug Tn fs)"
        using ino Done r by (simp add: Cons f)
      ultimately show ?thesis by blast
    next
      case (Again r)
      obtain T' fs' where r: "r = (T', fs')" by (cases r)
      from ref Again r obtain s' where
        s': "rar_iter s (rootp Tn) p d = Inr (s', Continue (rootp T', ptop fs', NONE))"
        "wfz s' T' fs'" by auto
      from rar_abs_Again [OF Again [unfolded r]]
      have m: "T' \<noteq> Tip" "rar_measure T' fs' < rar_measure Tn fs" by (simp_all add: Cons f)
      have I': "I T' fs'" using st Again r by simp
      from less.hyps [OF m(2) s'(2) I', of NONE] m(1)
      obtain s'' T'' where "rar_loop s' (rootp T') (ptop fs') NONE = Some (Inr s'')"
        "tr s'' None T''" "Q T''" "inord T'' = inord (plug T' fs')" "distinct (inord T'')"
        by auto
      moreover have "rar_loop s (rootp Tn) (ptop fs) d = rar_loop s' (rootp T') (ptop fs') NONE"
        by (simp add: Cons f rar_loop_Some s'(1))
      moreover have "inord (plug T' fs') = inord (plug Tn fs)"
        using ino Again r by (simp add: Cons f)
      ultimately show ?thesis by auto
    qed
  qed
qed


subsection \<open>No null dereference after the removal of a black node\<close>

lemma balanced_plug:
  "list_all (\<lambda>f. case f of Frame d a c u \<Rightarrow> d \<noteq> NONE) fs \<Longrightarrow>
   balanced (plug t fs) = (balanced t \<and> ctx_bal (bh t) fs)"
proof (induction fs arbitrary: t)
  case Nil
  show ?case by simp
next
  case (Cons f fs)
  obtain d a c u where f: "f = Frame d a c u" by (cases f)
  from Cons.prems have "list_all (\<lambda>f. case f of Frame d a c u \<Rightarrow> d \<noteq> NONE) fs" by simp
  from Cons.IH [OF this, of "fork d t a c u"]
  have "balanced (plug t (f # fs)) =
      (balanced (fork d t a c u) \<and> ctx_bal (bh (fork d t a c u)) fs)"
    by (simp add: f)
  also have "\<dots> = (balanced t \<and> ctx_bal (bh t) (f # fs))"
    by (cases "bh t = bh u") (auto simp: f)
  finally show ?case .
qed

lemma path_ok_dirs:
  "path_ok s q fs \<Longrightarrow> list_all (\<lambda>f. case f of Frame d a c u \<Rightarrow> d \<noteq> NONE) fs"
  by (induction fs arbitrary: q rule: before.induct) auto

lemma wfz_dirs: "wfz s t fs \<Longrightarrow> list_all (\<lambda>f. case f of Frame d a c u \<Rightarrow> d \<noteq> NONE) fs"
  by (auto simp: wfz_def zipper_def intro: path_ok_dirs)

lemma bh_sub: "balanced t \<Longrightarrow> rootp t = Some a \<Longrightarrow> d \<noteq> NONE \<Longrightarrow>
  bh (sub d t) + (if rootcol t = BLACK then 1 else 0) = bh t \<and> balanced (sub d t)"
  by (cases t; cases d) auto

lemma bh_pos_not_Tip: "0 < bh t \<Longrightarrow> \<exists>l a c r. t = Fork l a c r"
  by (cases t) auto

lemma Color_neq [simp]: "(c \<noteq> BLACK) = (c = RED)" "(c \<noteq> RED) = (c = BLACK)"
  by (cases c; simp)+

lemma bh_paint_RED:
  "rootcol t = BLACK \<Longrightarrow> t \<noteq> Tip \<Longrightarrow> Suc (bh (paint RED t)) = bh t"
  by (cases t) auto

lemma balanced_paint [simp]: "balanced (paint c t) = balanced t"
  by (cases t) auto

lemma rar_fix_abs_safe:
  assumes "near \<noteq> NONE" "rootp W1 = Some w" "balanced W1" "balanced Tn" "bh W1 = Suc (bh Tn)"
    and "cp1 = RED \<or> (rootcol W1 = BLACK \<and> ctx_bal (Suc (Suc (bh Tn))) fs1)"
  shows "case rar_fix_abs Tn near p cp1 W1 w fs1 of
           Fault \<Rightarrow> False
         | Done (T', fs') \<Rightarrow> True
         | Again (T', fs') \<Rightarrow> rar_safe T' fs'"
proof (cases "rootcol (sub near W1) = BLACK \<and> rootcol (sub (flip near) W1) = BLACK")
  case True
  from assms(6) have "rar_safe (fork near Tn p cp1 (paint RED W1)) fs1"
  proof
    assume "cp1 = RED"
    then show ?thesis by (simp add: rar_safe_def)
  next
    assume a: "rootcol W1 = BLACK \<and> ctx_bal (Suc (Suc (bh Tn))) fs1"
    from assms(2) have "W1 \<noteq> Tip" by auto
    with a assms(5) bh_paint_RED [of W1] have "bh (paint RED W1) = bh Tn" by auto
    with a assms(3,4) show ?thesis by (cases cp1) (auto simp: rar_safe_def)
  qed
  with True show ?thesis by (simp add: rar_fix_abs_def)
next
  case False
  then show ?thesis
    by (cases "sub near W1"; cases "sub (flip near) W1")
      (auto simp: rar_fix_abs_def Let_def fork_def)
qed

lemma rar_safe_step:
  assumes "rar_safe Tn (Frame near p cp W0 # fs)" "near \<noteq> NONE"
  shows "case rar_abs Tn (Frame near p cp W0) fs of
           Fault \<Rightarrow> False
         | Done (T', fs') \<Rightarrow> True
         | Again (T', fs') \<Rightarrow> rar_safe T' fs'"
proof (cases "rootcol Tn = RED")
  case True
  then show ?thesis by (simp add: rar_abs_def)
next
  case nr: False
  with assms have b: "balanced Tn" "balanced W0" "bh W0 = Suc (bh Tn)"
    "ctx_bal (Suc (bh Tn) + (if cp = BLACK then 1 else 0)) fs"
    by (auto simp: rar_safe_def)
  then obtain wl0 w0 cw0 wr0 where W0: "W0 = Fork wl0 w0 cw0 wr0"
    using bh_pos_not_Tip [of W0] by auto
  have near': "flip near \<noteq> NONE" using assms(2) by simp
  have rw0: "rootp W0 = Some w0" by (simp add: W0)
  show ?thesis
  proof (cases "rootcol W0 = RED")
    case red: True
    define W1 where "W1 = sub near W0"
    from bh_sub [OF b(2) rw0 assms(2)] red b(3)
    have w1: "bh W1 = Suc (bh Tn)" "balanced W1" by (simp_all add: W1_def)
    then obtain wl w cw wr where F: "W1 = Fork wl w cw wr"
      using bh_pos_not_Tip [of W1] by auto
    have ab: "rar_abs Tn (Frame near p cp W0) fs =
        rar_fix_abs Tn near p RED W1 w (Frame near w0 BLACK (sub (flip near) W0) # fs)"
      using rar_abs_red [OF nr rw0 red, of near p cp fs] F
      by (simp add: W1_def [symmetric])
    show ?thesis unfolding ab
      using assms(2) _ w1(2) b(1) w1(1)
      by (rule rar_fix_abs_safe) (simp_all add: F)
  next
    case black: False
    have ab: "rar_abs Tn (Frame near p cp W0) fs = rar_fix_abs Tn near p cp W0 w0 fs"
      using rar_abs_black [OF nr rw0 black] .
    show ?thesis unfolding ab
      using assms(2) rw0 b(2) b(1) b(3)
    proof (rule rar_fix_abs_safe)
      show "cp = RED \<or> (rootcol W0 = BLACK \<and> ctx_bal (Suc (Suc (bh Tn))) fs)"
        using black b(4) by (cases cp) auto
    qed
  qed
qed

subsection \<open>From the loop to \<open>rebalance_after_remove\<close>\<close>

lemma fields_heap_cong:
  assumes "heap s' = heap s"
  shows "color_of s' a = color_of s a" "parent_of s' a = parent_of s a"
    "child_at s' a d = child_at s a d"
  unfolding color_of_def parent_of_def child_at_def left_of_def right_of_def assms
  by (rule refl)+

lemma tr_heap_cong:
  assumes "heap s' = heap s"
  shows "tr s' par t = tr s par t"
proof (rule tr_cong)
  fix a
  show "color_of s' a = color_of s a \<and> parent_of s' a = parent_of s a
      \<and> (\<forall>d. child_at s' a d = child_at s a d)"
    using fields_heap_cong [OF assms] by blast
qed

lemma ripple_root:
  assumes "tr s None T" "x \<in> set (inord T)"
  shows "\<exists>s' r. ripple_structure_fixup s x = Some (s', r) \<and> heap s' = heap s \<and> rootp T = Some r"
proof -
  from tr_find [OF assms] obtain l c r gs where
    T: "T = plug (Fork l x c r) gs" and z: "zipper s (Fork l x c r) gs" by blast
  from zipper_anc_path [OF z] T
  have "anc_path s x (x # ancestors gs)" "rootp T = Some (last (x # ancestors gs))" by simp_all
  with ripple_loop_total [of s x "x # ancestors gs" x] show ?thesis
    by (simp add: ripple_structure_fixup_def)
qed

lemma in_inord_plug: "x \<in> set (inord t) \<Longrightarrow> x \<in> set (inord (plug t fs))"
  by (simp add: inord_plug)

lemma rebalance_after_remove_BLACK:
  assumes step: "\<And>Tn near p cp W0 fs. I Tn (Frame near p cp W0 # fs) \<Longrightarrow> near \<noteq> NONE \<Longrightarrow>
      (case rar_abs Tn (Frame near p cp W0) fs of
         Fault \<Rightarrow> False
       | Done (T', fs') \<Rightarrow> Q (plug T' fs')
       | Again (T', fs') \<Rightarrow> I T' fs')"
    and base: "\<And>Tn. I Tn [] \<Longrightarrow> Q Tn"
    and z: "wfz s Tn fs" and I: "I Tn fs"
    and pos: "(Tn = Tip \<and> (\<exists>cp W0 gs. fs = Frame d this cp W0 # gs))
              \<or> (rootp Tn = Some this \<and> d = NONE)"
  shows "\<exists>s' T' r. rebalance_after_remove s this BLACK d = Some (Inr (s', r))
     \<and> tr s' None T' \<and> rootp T' = Some r \<and> Q T'
     \<and> inord T' = inord (plug Tn fs) \<and> distinct (inord T')"
proof -
  from pos have dc: "(Tn = Tip \<and> (\<exists>p cp W0 gs. fs = Frame d p cp W0 # gs)) \<or> (Tn \<noteq> Tip \<and> d = NONE)"
    by auto
  from rar_loop_invariant [of I Q, OF step base z I dc]
  obtain s1 T' where l: "rar_loop s (rootp Tn) (ptop fs) d = Some (Inr s1)" "tr s1 None T'"
    "Q T'" "inord T' = inord (plug Tn fs)" "distinct (inord T')"
    by blast
  have this_in: "this \<in> set (inord T')"
    using pos l(4) rootp_in_inord [of Tn this] by (auto simp: inord_plug)
  have loop: "(if NONE \<noteq> d then rar_loop s None (Some this) d
                  else rar_loop s (Some this) (parent_of s this) d) = Some (Inr s1)"
    using pos
  proof
    assume a: "Tn = Tip \<and> (\<exists>cp W0 gs. fs = Frame d this cp W0 # gs)"
    with z have "d \<noteq> NONE" by (auto simp: wfz_up)
    with a l(1) show ?thesis by auto
  next
    assume a: "rootp Tn = Some this \<and> d = NONE"
    with wfz_root(1) [OF z, of this] l(1) show ?thesis by simp
  qed
  from ripple_root [OF l(2) this_in] obtain s2 r where
    r: "ripple_structure_fixup s1 this = Some (s2, r)" "heap s2 = heap s1" "rootp T' = Some r"
    by blast
  have "rebalance_after_remove s this BLACK d = Some (Inr (s2, r))"
    by (simp add: rebalance_after_remove_def loop r(1))
  moreover have "tr s2 None T'" using l(2) tr_heap_cong [OF r(2)] by simp
  ultimately show ?thesis using l r by blast
qed

section \<open>The fields after \<open>replace_with\<close>\<close>

lemma replace_with_color:
  "n \<noteq> t \<Longrightarrow> color_of (replace_with s t n) a = (if a = n then color_of s t else color_of s a)"
  by (simp add: replace_with_def Let_def split: option.splits)

lemma replace_with_parent:
  assumes "n \<noteq> t" "parent_of s t \<noteq> Some n" "parent_of s t \<noteq> Some t"
  shows "parent_of (replace_with s t n) a =
     (if a = n then parent_of s t
      else if child_at s t LEFT = Some a \<or> child_at s t RIGHT = Some a then Some n
      else parent_of s a)"
  using assms
  by (cases "parent_of s t") (auto simp add: replace_with_def Let_def)

lemma replace_with_child:
  assumes "n \<noteq> t" "parent_of s t \<noteq> Some n" "parent_of s t \<noteq> Some t" 
  shows "child_at (replace_with s t n) a e =
     (if a = t then None
      else if a = n then (if child_at s t e = Some n then None else child_at s t e)
      else if parent_of s t = Some a \<and> direction_of s a (Some t) = e \<and> e \<noteq> NONE then Some n
      else child_at s a e)"
  using assms
  apply (cases "parent_of s t"; cases e)
  apply (auto simp add: replace_with_def Let_def)
  done

subsection \<open>The loop of \<open>rebalance_after_remove\<close> restores the invariants\<close>

lemma no_red_red_plug:
  "no_red_red (plug t fs) = (no_red_red t \<and> ctx_rr (rootcol t) fs)"
proof (induction fs arbitrary: t)
  case Nil
  show ?case by simp
next
  case (Cons f fs)
  obtain d a c u where f: "f = Frame d a c u" by (cases f)
  show ?case by (auto simp: f Cons.IH)
qed

lemma ctx_rr_BLACK: "ctx_rr c fs \<Longrightarrow> ctx_rr BLACK fs"
  by (induction c fs rule: ctx_rr.induct) auto

lemma no_red_red_paint_BLACK: "no_red_red t \<Longrightarrow> no_red_red (paint BLACK t)"
  by (cases t) auto

lemma no_red_red_paint_BLACK_iff: "rootcol t = BLACK \<Longrightarrow> no_red_red (paint BLACK t) = no_red_red t"
  by (cases t) auto

lemma bh_paint_BLACK: "rootcol t = RED \<Longrightarrow> bh (paint BLACK t) = Suc (bh t)"
  by (cases t) auto

lemma no_red_red_sub:
  "no_red_red t \<Longrightarrow> no_red_red (sub d t) \<and> (rootcol t = RED \<longrightarrow> rootcol (sub d t) = BLACK)"
  by (cases t; cases d) auto

lemma rar_fix_abs_inv:
  assumes "near \<noteq> NONE" "rootp W1 = Some w" "balanced W1" "balanced Tn" "bh W1 = Suc (bh Tn)"
    and "rootcol W1 = BLACK" "no_red_red W1" "no_red_red Tn" "rootcol Tn = BLACK"
    and "ctx_bal (Suc (bh Tn) + (if cp1 = BLACK then 1 else 0)) fs1" "ctx_rr cp1 fs1"
  shows "case rar_fix_abs Tn near p cp1 W1 w fs1 of
           Fault \<Rightarrow> False
         | Done (T', fs') \<Rightarrow> balanced T' \<and> ctx_bal (bh T') fs' \<and> no_red_red T'
              \<and> ctx_rr (rootcol T') fs'
         | Again (T', fs') \<Rightarrow> rar_inv T' fs'"
proof -
  from assms(2) obtain wl cw wr where W1: "W1 = Fork wl w cw wr" by (cases W1) auto
  show ?thesis
    using assms
    apply (cases near; cases wl; cases wr; cases cp1)
    apply (auto simp: rar_fix_abs_def rar_inv_def W1 Let_def fork_def dest: ctx_rr_BLACK
        split: if_splits)
    done
qed

lemma rar_inv_step:
  assumes "rar_inv Tn (Frame near p cp W0 # fs)" "near \<noteq> NONE"
  shows "case rar_abs Tn (Frame near p cp W0) fs of
           Fault \<Rightarrow> False
         | Done (T', fs') \<Rightarrow> balanced T' \<and> ctx_bal (bh T') fs' \<and> no_red_red T'
              \<and> ctx_rr (rootcol T') fs'
         | Again (T', fs') \<Rightarrow> rar_inv T' fs'"
proof (cases "rootcol Tn = RED")
  case True
  then have "Tn \<noteq> Tip" by auto
  with True assms(1) show ?thesis
    by (auto simp: rar_abs_def rar_inv_def bh_paint_BLACK)
next
  case nr: False
  then have tb: "rootcol Tn = BLACK" by simp
  with assms have b: "balanced Tn" "balanced W0" "bh W0 = Suc (bh Tn)"
    "ctx_bal (Suc (bh Tn) + (if cp = BLACK then 1 else 0)) fs"
    "no_red_red Tn" "no_red_red W0" "ctx_rr cp fs" "cp = RED \<longrightarrow> rootcol W0 = BLACK"
    by (auto simp: rar_inv_def no_red_red_paint_BLACK_iff)
  then obtain wl0 w0 cw0 wr0 where W0: "W0 = Fork wl0 w0 cw0 wr0"
    using bh_pos_not_Tip [of W0] by auto
  have far: "flip near \<noteq> NONE" using assms(2) by simp
  have rw0: "rootp W0 = Some w0" by (simp add: W0)
  show ?thesis
  proof (cases "rootcol W0 = RED")
    case red: True
    with b(8) have cp: "cp = BLACK" by (cases cp) auto
    define W1 where "W1 = sub near W0"
    define Wf where "Wf = sub (flip near) W0"
    from bh_sub [OF b(2) rw0 assms(2)] red b(3)
    have w1: "bh W1 = Suc (bh Tn)" "balanced W1" by (simp_all add: W1_def)
    from bh_sub [OF b(2) rw0 far] red b(3)
    have wf: "bh Wf = Suc (bh Tn)" "balanced Wf" by (simp_all add: Wf_def)
    from no_red_red_sub [OF b(6), of near] no_red_red_sub [OF b(6), of "flip near"] red
    have rr: "no_red_red W1" "rootcol W1 = BLACK" "no_red_red Wf" "rootcol Wf = BLACK"
      by (simp_all add: W1_def Wf_def)
    from w1 obtain wl w cw wr where F: "W1 = Fork wl w cw wr"
      using bh_pos_not_Tip [of W1] by auto
    have ab: "rar_abs Tn (Frame near p cp W0) fs =
        rar_fix_abs Tn near p RED W1 w (Frame near w0 BLACK Wf # fs)"
      using rar_abs_red [OF nr rw0 red, of near p cp fs] F
      by (simp add: W1_def [symmetric] Wf_def [symmetric])
    show ?thesis unfolding ab
      using assms(2) _ w1(2) b(1) w1(1) rr(2,1) b(5) tb
    proof (rule rar_fix_abs_inv)
      show "rootp W1 = Some w" by (simp add: F)
      show "ctx_bal (Suc (bh Tn) + (if RED = BLACK then 1 else 0)) (Frame near w0 BLACK Wf # fs)"
        using wf b(4) cp by simp
      show "ctx_rr RED (Frame near w0 BLACK Wf # fs)"
        using rr b(7) cp by simp
    qed
  next
    case black: False
    have ab: "rar_abs Tn (Frame near p cp W0) fs = rar_fix_abs Tn near p cp W0 w0 fs"
      using rar_abs_black [OF nr rw0 black] .
    from black have "rootcol W0 = BLACK" by simp
    with assms(2) rw0 b(2) b(1) b(3) show ?thesis unfolding ab
      using b(6) b(5) tb b(4) b(7) by (rule rar_fix_abs_inv)
  qed
qed


lemma rar_abs_dirs:
  assumes "list_all (\<lambda>f. case f of Frame d a c u \<Rightarrow> d \<noteq> NONE) fs" "near \<noteq> NONE"
  shows "case rar_abs Tn (Frame near p cp W0) fs of
           Fault \<Rightarrow> True
         | Done (T', fs') \<Rightarrow> list_all (\<lambda>f. case f of Frame d a c u \<Rightarrow> d \<noteq> NONE) fs'
         | Again (T', fs') \<Rightarrow> list_all (\<lambda>f. case f of Frame d a c u \<Rightarrow> d \<noteq> NONE) fs'"
  using assms
  by (auto simp: rar_abs_def rar_fix_abs_def Let_def split: ptree.splits option.splits)

lemma rebalance_after_remove_inv:
  assumes z: "wfz s Tn fs" and I: "rar_inv Tn fs"
    and pos: "(Tn = Tip \<and> (\<exists>cp W0 gs. fs = Frame d this cp W0 # gs))
              \<or> (rootp Tn = Some this \<and> d = NONE)"
  shows "\<exists>s' T' r. rebalance_after_remove s this BLACK d = Some (Inr (s', r))
     \<and> tr s' None T' \<and> rootp T' = Some r \<and> rb_shape T'
     \<and> inord T' = inord (plug Tn fs) \<and> distinct (inord T')"
proof -
  let ?D = "list_all (\<lambda>f. case f of Frame d a c u \<Rightarrow> d \<noteq> NONE)"
  let ?I = "\<lambda>Tn fs. rar_inv Tn fs \<and> ?D fs"
  have I': "?I Tn fs" using I wfz_dirs [OF z] by simp
  show ?thesis using _ _ z I' pos
  proof (rule rebalance_after_remove_BLACK [where I = ?I and Q = rb_shape])
    fix Tn near p cp W0 fs
    assume a: "rar_inv Tn (Frame near p cp W0 # fs) \<and> ?D (Frame near p cp W0 # fs)"
       and n: "near \<noteq> NONE"
    from a have d: "?D fs" by simp
    from a have ri: "rar_inv Tn (Frame near p cp W0 # fs)" by simp
    from rar_inv_step [OF ri n] rar_abs_dirs [OF d n, of Tn p cp W0]
    show "case rar_abs Tn (Frame near p cp W0) fs of
           Fault \<Rightarrow> False
         | Done (T', fs') \<Rightarrow> rb_shape (plug T' fs')
         | Again (T', fs') \<Rightarrow> rar_inv T' fs' \<and> ?D fs'"
      by (cases "rar_abs Tn (Frame near p cp W0) fs")
         (auto simp: rb_shape_def balanced_plug no_red_red_plug no_red_red_paint_BLACK)
  next
    fix Tn assume "rar_inv Tn [] \<and> ?D []"
    then show "rb_shape Tn" by (simp add: rar_inv_def rb_shape_def)
  qed
qed

section \<open>Removal keeps the red-black invariants\<close>

lemma plug_append: "plug t (gs @ hs) = plug (plug t gs) hs"
  by (induction t gs rule: plug.induct) simp_all

lemma zipper_append:
  "list_all (\<lambda>f. case f of Frame d a c u \<Rightarrow> d \<noteq> NONE) gs \<Longrightarrow>
   zipper s t (gs @ hs) = zipper s (plug t gs) hs"
  by (induction t gs rule: plug.induct) (simp_all add: zipper_up)

lemma wfz_append:
  "list_all (\<lambda>f. case f of Frame d a c u \<Rightarrow> d \<noteq> NONE) gs \<Longrightarrow>
   wfz s t (gs @ hs) = wfz s (plug t gs) hs"
  by (simp add: wfz_def zipper_append plug_append)

lemma ptop_notin:
  assumes "distinct (inord (plug t fs))" "ptop fs = Some p"
  shows "p \<notin> set (inord t)"
  using assms ptop_in_ancestors [OF assms(2)] by (auto simp: inord_plug)

text \<open>Putting a node that is not in the tree in the place of \<open>t\<close>.\<close>

lemma replace_with_fresh:
  assumes z: "wfz s (Fork L t c R) fs" and nt: "n \<noteq> t"
    and fresh: "n \<notin> set (inord (plug (Fork L t c R) fs))"
  shows "wfz (replace_with s t n) (Fork L n c R) fs"
proof -
  let ?s = "replace_with s t n"
  from z have zz: "zipper s (Fork L t c R) fs" and dist: "distinct (inord (plug (Fork L t c R) fs))"
    by (simp_all add: wfz_def)
  have rd: "parent_of s t = ptop fs" "color_of s t = c" "child_at s t LEFT = rootp L"
    "child_at s t RIGHT = rootp R"
    using wfz_root [OF z, of t] by simp_all
  from dist have dl: "distinct (inord L)" "distinct (inord R)" "t \<notin> set (inord L)"
    "t \<notin> set (inord R)" "set (inord L) \<inter> set (inord R) = {}"
    "t \<notin> set (before fs)" "t \<notin> set (after fs)"
    "set (inord L) \<inter> (set (before fs) \<union> set (after fs)) = {}"
    "set (inord R) \<inter> (set (before fs) \<union> set (after fs)) = {}"
    by (auto simp: inord_plug)
  from fresh have fr: "n \<notin> set (inord L)" "n \<notin> set (inord R)" "n \<notin> set (before fs)"
    "n \<notin> set (after fs)"
    by (auto simp: inord_plug)
  have pin: "\<And>p. ptop fs = Some p \<Longrightarrow> p \<in> set (before fs) \<union> set (after fs)"
    by (rule ptop_in_ancestors)
  have pn: "parent_of s t \<noteq> Some n" using pin fr by (auto simp: rd)
  have pt: "parent_of s t \<noteq> Some t" using pin dl by (auto simp: rd)
  note F = replace_with_color [OF nt, of s] replace_with_parent [OF nt pn pt]
    replace_with_child [OF nt pn pt]
  have rl: "rootp L \<noteq> Some n" "rootp R \<noteq> Some n"
    using fr rootp_in_inord by blast+
  have same: "color_of ?s a = color_of s a \<and> parent_of ?s a = parent_of s a
        \<and> (\<forall>d. child_at ?s a d = child_at s a d)"
    if "a \<noteq> t" "a \<noteq> n" "ptop fs \<noteq> Some a" "rootp L \<noteq> Some a" "rootp R \<noteq> Some a" for a
    using that by (simp add: F rd)
  have sub: "tr ?s (Some n) X" 
    if x: "tr s (Some t) X" "distinct (inord X)" "t \<notin> set (inord X)" "n \<notin> set (inord X)"
       "set (inord X) \<inter> (set (before fs) \<union> set (after fs)) = {}"
       "rootp L = rootp X \<or> rootp R = rootp X"
       "\<And>a. a \<in> set (inord X) \<Longrightarrow> rootp X \<noteq> Some a \<Longrightarrow> rootp L \<noteq> Some a \<and> rootp R \<noteq> Some a"
    for X
  proof (rule tr_move [OF x(1,2)])
    fix a assume a: "a \<in> set (inord X)"
    then have an: "a \<noteq> t" "a \<noteq> n" "ptop fs \<noteq> Some a" using x(3,4,5) pin by auto
    show "color_of ?s a = color_of s a \<and> (\<forall>d. child_at ?s a d = child_at s a d)
      \<and> (rootp X \<noteq> Some a \<longrightarrow> parent_of ?s a = parent_of s a)"
      using an x(7) [OF a] by (auto simp: F rd)
  next
    fix a assume "rootp X = Some a"
    then show "parent_of ?s a = Some n"
      using x(6) rootp_in_inord [of X a] x(4) by (auto simp: F rd)
  qed
  have trL: "tr ?s (Some n) L"
  proof (rule sub)
    show "tr s (Some t) L" using zz by (simp add: zipper_def)
    show "\<And>a. a \<in> set (inord L) \<Longrightarrow> rootp L \<noteq> Some a \<Longrightarrow> rootp L \<noteq> Some a \<and> rootp R \<noteq> Some a"
      using dl(5) rootp_in_inord [of R] by auto
  qed (use dl fr in auto)
  have trR: "tr ?s (Some n) R"
  proof (rule sub)
    show "tr s (Some t) R" using zz by (simp add: zipper_def)
    show "\<And>a. a \<in> set (inord R) \<Longrightarrow> rootp R \<noteq> Some a \<Longrightarrow> rootp L \<noteq> Some a \<and> rootp R \<noteq> Some a"
      using dl(5) rootp_in_inord [of L] by auto
  qed (use dl fr in auto)
  have trn: "tr ?s (ptop fs) (Fork L n c R)"
    using trL trR rl nt by (simp add: F rd)
  have po: "path_ok ?s (Some n) fs"
  proof (cases fs)
    case Nil
    then show ?thesis by simp
  next
    case (Cons f gs)
    obtain d p cp U where f: "f = Frame d p cp U" by (cases f)
    note fs = Cons [unfolded f]
    from zz have po: "d \<noteq> NONE" "child_at s p d = Some t" "child_at s p (flip d) = rootp U"
      "color_of s p = cp" "parent_of s p = ptop gs" "tr s (Some p) U" "path_ok s (Some p) gs"
      by (simp_all add: zipper_def fs)
    have dir: "direction_of s p (Some t) = d"
      using direction_of_wfz [OF z [unfolded fs]] by simp
    from dist have dp: "p \<noteq> t" "p \<notin> set (inord L)" "p \<notin> set (inord R)" "p \<notin> set (inord U)"
      "p \<notin> set (before gs)" "p \<notin> set (after gs)"
      "t \<notin> set (inord U)" "set (inord L) \<inter> set (inord U) = {}" "set (inord R) \<inter> set (inord U) = {}"
      by (auto simp: inord_plug fs split: if_splits)
    from fresh have np: "n \<noteq> p" "n \<notin> set (inord U)" by (auto simp: inord_plug fs split: if_splits)
    have rp: "rootp L \<noteq> Some p" "rootp R \<noteq> Some p" using dp rootp_in_inord by blast+
    have c1: "child_at ?s p d = Some n" using po(1) dp(1) np(1) dir by (simp add: F rd fs)
    have c2: "child_at ?s p (flip d) = rootp U"
      using po(1,3) dp(1) np(1) dir by (simp add: F rd fs)
    have c3: "color_of ?s p = cp" "parent_of ?s p = ptop gs"
      using po(4,5) np(1) rp by (simp_all add: F rd)
    have c4: "tr ?s (Some p) U"
    proof (subst tr_cong [of U ?s s])
      fix a assume a: "a \<in> set (inord U)"
      then have "rootp L \<noteq> Some a" "rootp R \<noteq> Some a" "a \<noteq> t" "a \<noteq> n" "ptop fs \<noteq> Some a"
        using dp np rootp_in_inord [of L a] rootp_in_inord [of R a] by (auto simp: fs)
      then show "color_of ?s a = color_of s a \<and> parent_of ?s a = parent_of s a
        \<and> (\<forall>d. child_at ?s a d = child_at s a d)"
        using same by blast
    qed (rule po(6))
    have c5: "path_ok ?s (Some p) gs"
    proof (subst path_ok_cong [of gs ?s s])
      fix a assume a: "a \<in> set (before gs) \<union> set (after gs)"
      then have "a \<in> set (before fs) \<union> set (after fs)" by (auto simp: fs)
      then have "rootp L \<noteq> Some a" "rootp R \<noteq> Some a" "a \<noteq> t" "a \<noteq> n"
        using dl fr rootp_in_inord [of L a] rootp_in_inord [of R a] by auto
      moreover have "ptop fs \<noteq> Some a" using a dp by (auto simp: fs)
      ultimately show "color_of ?s a = color_of s a \<and> parent_of ?s a = parent_of s a
        \<and> (\<forall>d. child_at ?s a d = child_at s a d)"
        using same by blast
    qed (rule po(7))
    show ?thesis using po(1) c1 c2 c3 c4 c5 by (simp add: fs)
  qed
  have "distinct (inord (plug (Fork L n c R) fs))"
    using dist fresh by (auto simp: inord_plug)
  with trn po show ?thesis by (simp add: wfz_def zipper_def)
qed

lemma replace_with_path:
  assumes z: "wfz s T fs" and rt: "rootp T = Some t" and nt: "n \<noteq> t"
    and nf: "n \<notin> set (before fs) \<union> set (after fs)"
  shows "path_ok (replace_with s t n) (Some n) fs"
proof (cases fs)
  case Nil
  then show ?thesis by simp
next
  case (Cons f gs)
  let ?s = "replace_with s t n"
  obtain d p cp U where f: "f = Frame d p cp U" by (cases f)
  note fs = Cons [unfolded f]
  from rt obtain L c R where T: "T = Fork L t c R" by (cases T) auto
  from z have zz: "zipper s T fs" and dist: "distinct (inord (plug T fs))"
    by (simp_all add: wfz_def)
  have rd: "parent_of s t = Some p" "child_at s t LEFT = rootp L" "child_at s t RIGHT = rootp R"
    using wfz_root [OF z rt] by (simp_all add: fs T)
  from zz have po: "d \<noteq> NONE" "child_at s p d = Some t" "child_at s p (flip d) = rootp U"
    "color_of s p = cp" "parent_of s p = ptop gs" "tr s (Some p) U" "path_ok s (Some p) gs"
    by (simp_all add: zipper_def fs rt)
  have dir: "direction_of s p (Some t) = d"
    using direction_of_wfz [OF z [unfolded fs] rt] .
  from dist have dp: "p \<noteq> t" "p \<notin> set (inord L)" "p \<notin> set (inord R)" "p \<notin> set (inord U)"
    "p \<notin> set (before gs)" "p \<notin> set (after gs)" "t \<notin> set (inord U)"
    "t \<notin> set (before gs)" "t \<notin> set (after gs)"
    "set (inord L) \<inter> set (inord U) = {}" "set (inord R) \<inter> set (inord U) = {}"
    "set (inord L) \<inter> (set (before gs) \<union> set (after gs)) = {}"
    "set (inord R) \<inter> (set (before gs) \<union> set (after gs)) = {}"
    by (auto simp: inord_plug fs T split: if_splits)
  from nf have np: "n \<noteq> p" "n \<notin> set (inord U)" "n \<notin> set (before gs)" "n \<notin> set (after gs)"
    by (auto simp: fs split: if_splits)
  have pn: "parent_of s t \<noteq> Some n" using np by (simp add: rd)
  have pt: "parent_of s t \<noteq> Some t" using dp by (simp add: rd)
  note F = replace_with_color [OF nt, of s] replace_with_parent [OF nt pn pt]
    replace_with_child [OF nt pn pt]
  have rp: "rootp L \<noteq> Some p" "rootp R \<noteq> Some p" using dp rootp_in_inord by blast+
  have same: "color_of ?s a = color_of s a \<and> parent_of ?s a = parent_of s a
        \<and> (\<forall>d. child_at ?s a d = child_at s a d)"
    if "a \<noteq> t" "a \<noteq> n" "p \<noteq> a" "rootp L \<noteq> Some a" "rootp R \<noteq> Some a" for a
    using that by (simp add: F rd)
  have c1: "child_at ?s p d = Some n" using po(1) dp(1) np(1) dir by (simp add: F rd)
  have c2: "child_at ?s p (flip d) = rootp U"
    using po(1,3) dp(1) np(1) dir by (simp add: F rd)
  have c3: "color_of ?s p = cp" "parent_of ?s p = ptop gs"
    using po(4,5) np(1) rp by (simp_all add: F rd)
  have c4: "tr ?s (Some p) U"
  proof (subst tr_cong [of U ?s s])
    fix a assume a: "a \<in> set (inord U)"
    then have "rootp L \<noteq> Some a" "rootp R \<noteq> Some a" "a \<noteq> t" "a \<noteq> n" "p \<noteq> a"
      using dp np rootp_in_inord [of L a] rootp_in_inord [of R a] by auto
    then show "color_of ?s a = color_of s a \<and> parent_of ?s a = parent_of s a
      \<and> (\<forall>d. child_at ?s a d = child_at s a d)"
      using same by blast
  qed (rule po(6))
  have c5: "path_ok ?s (Some p) gs"
  proof (subst path_ok_cong [of gs ?s s])
    fix a assume a: "a \<in> set (before gs) \<union> set (after gs)"
    then have "rootp L \<noteq> Some a" "rootp R \<noteq> Some a" "a \<noteq> t" "a \<noteq> n" "p \<noteq> a"
      using dp np rootp_in_inord [of L a] rootp_in_inord [of R a] by auto
    then show "color_of ?s a = color_of s a \<and> parent_of ?s a = parent_of s a
      \<and> (\<forall>d. child_at ?s a d = child_at s a d)"
      using same by blast
  qed (rule po(7))
  show ?thesis using po(1) c1 c2 c3 c4 c5 by (simp add: fs)
qed

text \<open>Putting the only child of \<open>t\<close>, a leaf, in the place of \<open>t\<close>.\<close>

lemma replace_with_child_leaf:
  assumes z: "wfz s (fork d (Fork Tip n cn Tip) t c Tip) fs" and d: "d \<noteq> NONE"
  shows "wfz (replace_with s t n) (Fork Tip n c Tip) fs"
proof -
  let ?s = "replace_with s t n"
  let ?T = "fork d (Fork Tip n cn Tip) t c Tip"
  from z have dist: "distinct (inord (plug ?T fs))" by (simp add: wfz_def)
  then have dl: "n \<noteq> t" "n \<notin> set (before fs) \<union> set (after fs)"
    by (auto simp: inord_plug)
  have rd: "parent_of s t = ptop fs" "color_of s t = c" "child_at s t d = Some n"
    "child_at s t (flip d) = None"
    using wfz_read [OF z d] by simp_all
  have ch: "child_at s t LEFT = Some n \<or> child_at s t LEFT = None"
    "child_at s t RIGHT = Some n \<or> child_at s t RIGHT = None"
    using rd d by (cases d; simp)+
  have pin: "\<And>p. ptop fs = Some p \<Longrightarrow> p \<in> set (before fs) \<union> set (after fs)"
    by (rule ptop_in_ancestors)
  have pn: "parent_of s t \<noteq> Some n" using pin dl by (auto simp: rd)
  have pt: "parent_of s t \<noteq> Some t" using pin dist by (auto simp: rd inord_plug)
  note F = replace_with_color [OF dl(1), of s] replace_with_parent [OF dl(1) pn pt]
    replace_with_child [OF dl(1) pn pt]
  have "tr ?s (ptop fs) (Fork Tip n c Tip)"
    using ch dl(1) by (auto simp: F rd)
  moreover have "path_ok ?s (Some n) fs"
    using replace_with_path [OF z _ dl] by simp
  moreover have "distinct (inord (plug (Fork Tip n c Tip) fs))"
    using dist by (auto simp: inord_plug)
  ultimately show ?thesis by (simp add: wfz_def zipper_def)
qed

text \<open>Cutting a leaf off its parent.\<close>

lemma set_child_None_leaf:
  assumes z: "wfz s (Fork Tip m cm Tip) (Frame d p cp U # fs)"
  shows "wfz (set_child s p None d) Tip (Frame d p cp U # fs)"
proof -
  let ?s = "set_child s p None d"
  from z have zz: "zipper s (Fork Tip m cm Tip) (Frame d p cp U # fs)"
    and dist: "distinct (inord (plug (Fork Tip m cm Tip) (Frame d p cp U # fs)))"
    by (simp_all add: wfz_def)
  from zz have po: "d \<noteq> NONE" "child_at s p (flip d) = rootp U"
    "color_of s p = cp" "parent_of s p = ptop fs" "tr s (Some p) U" "path_ok s (Some p) fs"
    by (simp_all add: zipper_def)
  from dist have dp: "p \<notin> set (inord U)" "p \<notin> set (before fs)" "p \<notin> set (after fs)"
    by (auto simp: inord_plug split: if_splits)
  have c4: "tr ?s (Some p) U"
    by (subst tr_cong [of U ?s s]) (use dp po in auto)
  have c5: "path_ok ?s (Some p) fs"
    by (subst path_ok_cong [of fs ?s s]) (use dp po in auto)
  have "distinct (inord (plug Tip (Frame d p cp U # fs)))"
    using dist by (auto simp: inord_plug split: if_splits)
  then show ?thesis using po c4 c5 by (simp add: wfz_def zipper_def)
qed

text \<open>\<open>left_most_descendant\<close> walks down the left links of a tree.\<close>

lemma lmd_loop_zipper:
  "wfz s R hs \<Longrightarrow> rootp R = Some r \<Longrightarrow>
   \<exists>m cm mr gs. lmd_loop s r = Some m \<and> R = plug (Fork Tip m cm mr) gs
      \<and> list_all (\<lambda>f. case f of Frame d a c u \<Rightarrow> d = LEFT) gs
      \<and> wfz s (Fork Tip m cm mr) (gs @ hs)"
proof (induction R arbitrary: r hs)
  case Tip
  then show ?case by simp
next
  case (Fork l a c rr)
  then have ar: "a = r" by simp
  note z = Fork.prems(1) [unfolded ar]
  have cl: "child_at s r LEFT = rootp l" using wfz_child [OF z, of r LEFT] by simp
  show ?case
  proof (cases l)
    case Tip
    have "lmd_loop s r = Some r" by (subst lmd_loop.simps) (simp add: cl Tip)
    then show ?thesis using z by (intro exI [of _ r] exI [of _ c] exI [of _ rr] exI [of _ "[]"]) (simp add: Tip ar)
  next
    case (Fork ll b cb lr)
    have zl: "wfz s l (Frame LEFT r c rr # hs)" using wfz_sub [OF z, of r LEFT] by simp
    from Fork.IH(1) [OF zl, of b] obtain m cm mr gs where
      g: "lmd_loop s b = Some m" "l = plug (Fork Tip m cm mr) gs"
         "list_all (\<lambda>f. case f of Frame d a c u \<Rightarrow> d = LEFT) gs"
         "wfz s (Fork Tip m cm mr) (gs @ Frame LEFT r c rr # hs)"
      by (auto simp: Fork)
    have "lmd_loop s r = Some m" by (subst lmd_loop.simps) (simp add: cl Fork g(1))
    moreover have "Fork l a c rr = plug (Fork Tip m cm mr) (gs @ [Frame LEFT r c rr])"
      by (simp add: plug_append g(2) [symmetric] fork_def ar)
    ultimately show ?thesis using g(3,4)
      by (intro exI [of _ m] exI [of _ cm] exI [of _ mr] exI [of _ "gs @ [Frame LEFT r c rr]"]) simp
  qed
qed

lemma red_leaf:
  "balanced t \<Longrightarrow> bh t = 0 \<Longrightarrow> no_red_red t \<Longrightarrow> t \<noteq> Tip \<Longrightarrow> \<exists>a. t = Fork Tip a RED Tip"
  by (cases t; cases "sub LEFT t"; cases "sub RIGHT t") (auto split: if_splits)

lemma remove_splice_other:
  "m \<noteq> x \<Longrightarrow> remove_splice s x m =
     (case remove_splice s m m of
        Inl e \<Rightarrow> Inl e
      | Inr (s1, sp, rc, d2) \<Rightarrow> Inr (replace_with s1 x m, (if sp = x then m else sp), rc, d2))"
  by (simp add: remove_splice_def Let_def split: option.splits sum.splits)

text \<open>Lines 208 to 232 of \<open>remove\<close> at a node with at most one child in a red-black tree: the
  node is a leaf and is cut off, or its child is a red leaf and takes its place.\<close>

lemma remove_splice_self:
  assumes z: "wfz s (Fork ml m cm mr) (Frame d p cp U # fs)"
    and one: "ml = Tip \<or> mr = Tip"
    and bal: "balanced (Fork ml m cm mr)" and rr: "no_red_red (Fork ml m cm mr)"
  shows "\<exists>s1 sp rc d2 Tn. remove_splice s m m = Inr (s1, sp, rc, d2)
     \<and> wfz s1 Tn (Frame d p cp U # fs) \<and> inord Tn = inord ml @ inord mr
     \<and> ((Tn = Tip \<and> rc = cm \<and> bh (Fork ml m cm mr) = (if rc = BLACK then 1 else 0)
           \<and> d2 = d \<and> sp = p)
        \<or> (Tn = Fork Tip sp BLACK Tip \<and> rc = RED \<and> d2 = NONE \<and> cm = BLACK
           \<and> bh (Fork ml m cm mr) = 1))"
proof -
  have rd: "parent_of s m = Some p" "color_of s m = cm" "child_at s m LEFT = rootp ml"
    "child_at s m RIGHT = rootp mr"
    using wfz_root [OF z, of m] by simp_all
  have dir: "direction_of s p (Some m) = d" using direction_of_wfz [OF z, of m] by simp
  consider (leaf) "ml = Tip" "mr = Tip" | (left) "ml \<noteq> Tip" "mr = Tip" | (right) "ml = Tip" "mr \<noteq> Tip"
    using one by blast
  then show ?thesis
  proof cases
    case leaf
    have "remove_splice s m m = Inr (set_child s p None d, p, cm, d)"
      by (simp add: remove_splice_def rd dir leaf)
    moreover have "wfz (set_child s p None d) Tip (Frame d p cp U # fs)"
      using set_child_None_leaf z leaf by blast
    ultimately show ?thesis using bal leaf by auto
  next
    case left
    from bal left have "bh ml = 0" "balanced ml" by simp_all
    with red_leaf [of ml] rr left obtain sp where ml: "ml = Fork Tip sp RED Tip" by auto
    from rr ml have cm: "cm = BLACK" by (cases cm) auto
    have z': "wfz s (fork LEFT (Fork Tip sp RED Tip) m cm Tip) (Frame d p cp U # fs)"
      using z by (simp add: fork_def ml left)
    have csp: "color_of s sp = RED" using z by (simp add: wfz_def zipper_def ml)
    have "remove_splice s m m = Inr (replace_with s m sp, sp, RED, NONE)"
      by (simp add: remove_splice_def rd ml left csp)
    moreover have "wfz (replace_with s m sp) (Fork Tip sp cm Tip) (Frame d p cp U # fs)"
      using replace_with_child_leaf [OF z'] by simp
    ultimately show ?thesis using ml left cm by auto
  next
    case right
    from bal right have "bh mr = 0" "balanced mr" by simp_all
    with red_leaf [of mr] rr right obtain sp where mr: "mr = Fork Tip sp RED Tip" by auto
    from rr mr have cm: "cm = BLACK" by (cases cm) auto
    have z': "wfz s (fork RIGHT (Fork Tip sp RED Tip) m cm Tip) (Frame d p cp U # fs)"
      using z by (simp add: fork_def mr right)
    have csp: "color_of s sp = RED" using z by (simp add: wfz_def zipper_def mr)
    have "remove_splice s m m = Inr (replace_with s m sp, sp, RED, NONE)"
      by (simp add: remove_splice_def rd mr right csp)
    moreover have "wfz (replace_with s m sp) (Fork Tip sp cm Tip) (Frame d p cp U # fs)"
      using replace_with_child_leaf [OF z'] by simp
    ultimately show ?thesis using mr right cm by auto
  qed
qed

lemma before_append: "before (gs @ hs) = before hs @ before gs"
  by (induction gs rule: before.induct) simp_all

lemma after_append: "after (gs @ hs) = after gs @ after hs"
  by (induction gs rule: after.induct) simp_all

lemma before_LEFT:
  "list_all (\<lambda>f. case f of Frame d a c u \<Rightarrow> d = LEFT) gs \<Longrightarrow> before gs = []"
  by (induction gs rule: before.induct) simp_all

lemma LEFT_dirs:
  "list_all (\<lambda>f. case f of Frame d a c u \<Rightarrow> d = LEFT) gs \<Longrightarrow>
   list_all (\<lambda>f. case f of Frame d a c u \<Rightarrow> d \<noteq> NONE) gs"
  by (induction gs rule: before.induct) simp_all

lemma ctx_bal_rename:
  "ctx_bal k (gs @ Frame d x c L # fs) = ctx_bal k (gs @ Frame d m c L # fs)"
  by (induction k gs rule: ctx_bal.induct) simp_all

lemma ctx_rr_rename:
  "ctx_rr c0 (gs @ Frame d x c L # fs) = ctx_rr c0 (gs @ Frame d m c L # fs)"
  by (induction c0 gs rule: ctx_rr.induct) simp_all

lemma ptop_None [simp]: "(ptop fs = None) = (fs = [])"
  by (cases fs rule: ptop.cases) simp_all

text \<open>The call of \<open>rebalance_after_remove\<close> at line 244, after the node \<open>m\<close> that had the
  subtree \<open>M\<close> has been taken out of a red-black tree.\<close>

lemma remove_finish:
  assumes z: "wfz s1 Tn hs"
    and ctx: "ctx_bal (bh M) hs" "ctx_rr (rootcol M) hs"
    and post: "(Tn = Tip \<and> rc = rootcol M \<and> bh M = (if rc = BLACK then 1 else 0)
                 \<and> (\<exists>cp U gs. hs = Frame d2 sp cp U # gs))
               \<or> (Tn = Fork Tip sp BLACK Tip \<and> rc = RED \<and> d2 = NONE \<and> rootcol M = BLACK \<and> bh M = 1)"
  shows "\<exists>s' r T'. rebalance_after_remove s1 sp rc d2 = Some (Inr (s', r))
     \<and> tr s' None T' \<and> rootp T' = Some r \<and> rb_shape T'
     \<and> inord T' = inord (plug Tn hs) \<and> distinct (inord T')"
proof (cases rc)
  case BLACK
  with post have p: "Tn = Tip" "rootcol M = BLACK" "bh M = 1" "\<exists>cp U gs. hs = Frame d2 sp cp U # gs"
    by auto
  have inv: "rar_inv Tn hs" using ctx p ctx_rr_BLACK by (auto simp: rar_inv_def)
  have pos: "(Tn = Tip \<and> (\<exists>cp W0 gs. hs = Frame d2 sp cp W0 # gs)) \<or> (rootp Tn = Some sp \<and> d2 = NONE)"
    using p by simp
  from rebalance_after_remove_inv [OF z inv pos] show ?thesis unfolding BLACK by blast
next
  case RED
  let ?T = "plug Tn hs"
  have t: "tr s1 None ?T" "distinct (inord ?T)" using z zipper_plug by (auto simp: wfz_def)
  have sp: "sp \<in> set (inord ?T)" using post RED by (auto simp: inord_plug)
  from ripple_root [OF t(1) sp] obtain s' r where
    r: "ripple_structure_fixup s1 sp = Some (s', r)" "heap s' = heap s1" "rootp ?T = Some r"
    by blast
  have "balanced Tn \<and> bh Tn = bh M \<and> no_red_red Tn \<and> rootcol Tn = BLACK"
    using post RED by auto
  then have "rb_shape ?T" using ctx ctx_rr_BLACK [OF ctx(2)] wfz_dirs [OF z]
    by (simp add: rb_shape_def balanced_plug no_red_red_plug no_red_red_paint_BLACK)
  moreover have "rebalance_after_remove s1 sp rc d2 = Some (Inr (s', r))"
    by (simp add: RED rar_RED r(1))
  moreover have "tr s' None ?T" using t(1) by (simp add: tr_heap_cong [OF r(2)])
  ultimately show ?thesis using r(3) t(2) by blast
qed

lemma tr_detach_root:
  assumes "tr s (Some x) L" "rootp L = Some l" "distinct (inord L)"
  shows "tr (set_color (set_parent s l None) l BLACK) None (paint BLACK L)"
proof -
  have "tr (set_parent s l None) None L"
    by (rule tr_move [OF assms(1,3)]) (use assms(2) in auto)
  then have "wfz (set_parent s l None) L []" using assms(3) by (simp add: wfz_def zipper_Nil)
  from wfz_paint [OF this assms(2)] show ?thesis by (simp add: wfz_def zipper_Nil)
qed

lemma remove_rb_general:
  assumes "\<not> (parent_of s x = None \<and> \<not> (child_at s x LEFT \<noteq> None \<and> child_at s x RIGHT \<noteq> None))"
    and "remove_node_of s x = Some m" and "remove_splice s x m = Inr (s1, sp, rc, d)"
    and "rebalance_after_remove s1 sp rc d = Some (Inr (s2, r))"
  shows "remove_rb s x = Some (Inr (set_color s2 r BLACK, Some r))"
  using assms unfolding remove_rb_def remove_node_of_def left_of_conv right_of_conv
  by (auto split: option.splits if_splits)

lemma remove_rb_shape:
  assumes t: "tr s None T" and dist: "distinct (inord T)"
    and rr: "no_red_red T" and bal: "balanced T" and x: "x \<in> set (inord T)"
  shows "\<exists>s' T'. remove_rb s x = Some (Inr (s', rootp T')) \<and> tr s' None T'
     \<and> rootcol T' = BLACK \<and> no_red_red T' \<and> balanced T'
     \<and> (\<exists>xs ys. inord T = xs @ x # ys \<and> inord T' = xs @ ys)"
proof -
  from tr_find [OF t x] obtain L c R fs where
    T: "T = plug (Fork L x c R) fs" and zz: "zipper s (Fork L x c R) fs"
    by blast
  have z: "wfz s (Fork L x c R) fs" using zz dist by (simp add: wfz_def T)
  note dirs = wfz_dirs [OF z]
  have rd: "parent_of s x = ptop fs" "child_at s x LEFT = rootp L" "child_at s x RIGHT = rootp R"
    using wfz_root [OF z, of x] by simp_all
  have B: "balanced (Fork L x c R)" "ctx_bal (bh (Fork L x c R)) fs"
    using bal unfolding T balanced_plug [OF dirs] by blast+
  have N: "no_red_red (Fork L x c R)" "ctx_rr c fs"
    using rr unfolding T no_red_red_plug rootcol.simps by blast+
  have io: "inord T = before fs @ inord L @ x # inord R @ after fs"
    by (simp add: T inord_plug)
  show ?thesis
  proof (cases "fs = [] \<and> (L = Tip \<or> R = Tip)")
    case True
    then have fs: "fs = []" and one: "L = Tip \<or> R = Tip" by simp_all
    from zz have tl: "tr s (Some x) L" "tr s (Some x) R" by (simp_all add: zipper_def)
    from dist have dl: "distinct (inord L)" "distinct (inord R)" by (simp_all add: io)
    show ?thesis
    proof (cases L)
      case Tip
      show ?thesis
      proof (cases R)
        case Tip
        have "remove_rb s x = Some (Inr (s, rootp Tip))"
          by (simp add: remove_rb_def rd fs \<open>L = Tip\<close> Tip)
        then show ?thesis using io fs \<open>L = Tip\<close> Tip
          by (intro exI [of _ s] exI [of _ Tip]) simp
      next
        case (Fork rl r cr rrt)
        let ?s = "set_color (set_parent s r None) r BLACK"
        have "remove_rb s x = Some (Inr (?s, rootp (paint BLACK R)))"
          by (simp add: remove_rb_def rd fs \<open>L = Tip\<close> Fork)
        moreover have "tr ?s None (paint BLACK R)"
          using tr_detach_root [OF tl(2) _ dl(2)] Fork by simp
        moreover have "rootcol (paint BLACK R) = BLACK \<and> no_red_red (paint BLACK R)
            \<and> balanced (paint BLACK R)"
          using B(1) N(1) Fork by simp
        moreover have "\<exists>xs ys. inord T = xs @ x # ys \<and> inord (paint BLACK R) = xs @ ys"
          by (rule exI [of _ "[]"], rule exI [of _ "inord R"]) (simp add: io fs \<open>L = Tip\<close>)
        ultimately show ?thesis by blast
      qed
    next
      case (Fork ll l cl lr)
      with one have R: "R = Tip" by simp
      let ?s = "set_color (set_parent s l None) l BLACK"
      have "remove_rb s x = Some (Inr (?s, rootp (paint BLACK L)))"
        by (simp add: remove_rb_def rd fs R Fork)
      moreover have "tr ?s None (paint BLACK L)"
        using tr_detach_root [OF tl(1) _ dl(1)] Fork by simp
      moreover have "rootcol (paint BLACK L) = BLACK \<and> no_red_red (paint BLACK L)
          \<and> balanced (paint BLACK L)"
        using B(1) N(1) Fork by simp
      moreover have "\<exists>xs ys. inord T = xs @ x # ys \<and> inord (paint BLACK L) = xs @ ys"
        by (rule exI [of _ "inord L"], rule exI [of _ "[]"]) (simp add: io fs R)
      ultimately show ?thesis by blast
    qed
  next
    case False
    have cond: "\<not> (parent_of s x = None \<and> \<not> (child_at s x LEFT \<noteq> None \<and> child_at s x RIGHT \<noteq> None))"
      using False by (auto simp: rd)
    have fin: ?thesis
      if g: "remove_node_of s x = Some m" "remove_splice s x m = Inr (s1, sp, rc, d2)"
         "wfz s1 Tn hs" "ctx_bal (bh M) hs" "ctx_rr (rootcol M) hs"
         "(Tn = Tip \<and> rc = rootcol M \<and> bh M = (if rc = BLACK then 1 else 0)
                 \<and> (\<exists>cp U gs. hs = Frame d2 sp cp U # gs))
            \<or> (Tn = Fork Tip sp BLACK Tip \<and> rc = RED \<and> d2 = NONE \<and> rootcol M = BLACK \<and> bh M = 1)"
         "inord T = xs @ x # ys" "inord (plug Tn hs) = xs @ ys"
      for m s1 sp rc d2 Tn hs M xs ys
    proof -
      from remove_finish [OF g(3,4,5,6)] obtain s' r T' where
        f: "rebalance_after_remove s1 sp rc d2 = Some (Inr (s', r))" "tr s' None T'"
           "rootp T' = Some r" "rb_shape T'" "inord T' = inord (plug Tn hs)" "distinct (inord T')"
        by blast
      have rm: "remove_rb s x = Some (Inr (set_color s' r BLACK, rootp (paint BLACK T')))"
        using remove_rb_general [OF cond g(1,2) f(1)] f(3) by simp
      have "wfz s' T' []" using f(2,6) by (simp add: wfz_def zipper_Nil)
      from wfz_paint [OF this f(3)] have "tr (set_color s' r BLACK) None (paint BLACK T')"
        by (simp add: wfz_def zipper_Nil)
      moreover have "rootcol (paint BLACK T') = BLACK" using f(3) by (cases T') auto
      moreover have "\<exists>xs ys. inord T = xs @ x # ys \<and> inord (paint BLACK T') = xs @ ys"
        using g(7,8) f(5) by auto
      moreover have "no_red_red (paint BLACK T') \<and> balanced (paint BLACK T')"
        using f(4) by (simp add: rb_shape_def)
      ultimately show ?thesis using rm by blast
    qed
    show ?thesis
    proof (cases "L = Tip \<or> R = Tip")
      case True
      with False obtain d p cp U fs0 where fs: "fs = Frame d p cp U # fs0"
        by (cases fs rule: ptop.cases) auto
      have rn: "remove_node_of s x = Some x"
        using True by (auto simp: remove_node_of_def rd split: option.splits)
      from remove_splice_self [OF z [unfolded fs] True B(1) N(1)] obtain s1 sp rc d2 Tn where
        p1: "remove_splice s x x = Inr (s1, sp, rc, d2)" "wfz s1 Tn fs" "inord Tn = inord L @ inord R"
           "(Tn = Tip \<and> rc = c \<and> bh (Fork L x c R) = (if rc = BLACK then 1 else 0) \<and> d2 = d \<and> sp = p)
            \<or> (Tn = Fork Tip sp BLACK Tip \<and> rc = RED \<and> d2 = NONE \<and> c = BLACK \<and> bh (Fork L x c R) = 1)"
        unfolding fs by blast
      have "inord (plug Tn fs) = (before fs @ inord L) @ (inord R @ after fs)"
        by (simp add: inord_plug p1(3))
      moreover have "inord T = (before fs @ inord L) @ x # (inord R @ after fs)" by (simp add: io)
      moreover have "(Tn = Tip \<and> rc = rootcol (Fork L x c R) \<and> bh (Fork L x c R) = (if rc = BLACK then 1 else 0)
                 \<and> (\<exists>cp U gs. fs = Frame d2 sp cp U # gs))
            \<or> (Tn = Fork Tip sp BLACK Tip \<and> rc = RED \<and> d2 = NONE \<and> rootcol (Fork L x c R) = BLACK \<and> bh (Fork L x c R) = 1)"
        using p1(4) fs by auto
      moreover have "ctx_rr (rootcol (Fork L x c R)) fs" using N(2) by simp
      ultimately show ?thesis using rn p1(1,2) B(2) fin by blast
    next
      case two: False
      then obtain r where rR: "rootp R = Some r" by (cases R) auto
      have zR: "wfz s R (Frame RIGHT x c L # fs)" using wfz_sub [OF z, of x RIGHT] by simp
      from lmd_loop_zipper [OF zR rR] obtain m cm mr gs where
        lm: "lmd_loop s r = Some m" and Rg: "R = plug (Fork Tip m cm mr) gs"
        and gl: "list_all (\<lambda>f. case f of Frame d a c u \<Rightarrow> d = LEFT) gs"
        and zm: "wfz s (Fork Tip m cm mr) (gs @ Frame RIGHT x c L # fs)"
        by blast
      note gd = LEFT_dirs [OF gl]
      let ?M = "Fork Tip m cm mr"
      let ?hs = "gs @ Frame RIGHT x c L # fs"
      let ?hs' = "gs @ Frame RIGHT m c L # fs"
      have TM: "T = plug ?M ?hs" by (simp add: T plug_append Rg [symmetric] fork_def)
      have BM: "balanced ?M" "ctx_bal (bh ?M) ?hs"
        using bal unfolding TM balanced_plug [OF wfz_dirs [OF zm]] by blast+
      have NM: "no_red_red ?M" "ctx_rr cm ?hs"
        using rr unfolding TM no_red_red_plug rootcol.simps by blast+
      have ioR: "inord R = m # inord mr @ after gs"
        by (simp add: Rg inord_plug before_LEFT [OF gl])
      have mx: "m \<noteq> x" using dist by (auto simp: io ioR)
      have rn: "remove_node_of s x = Some m"
        using two rR lm by (auto simp: remove_node_of_def rd left_most_descendant_def)
      obtain d p cp U hs0 where hs: "?hs = Frame d p cp U # hs0"
        by (cases ?hs rule: ptop.cases) auto
      from remove_splice_self [OF zm [unfolded hs] _ BM(1) NM(1)] obtain s1 sp rc d2 Tn where
        p1: "remove_splice s m m = Inr (s1, sp, rc, d2)" "wfz s1 Tn ?hs" "inord Tn = inord mr"
           "(Tn = Tip \<and> rc = cm \<and> bh ?M = (if rc = BLACK then 1 else 0) \<and> d2 = d \<and> sp = p)
            \<or> (Tn = Fork Tip sp BLACK Tip \<and> rc = RED \<and> d2 = NONE \<and> cm = BLACK \<and> bh ?M = 1)"
        unfolding hs by auto
      let ?sp = "if sp = x then m else sp"
      let ?s2 = "replace_with s1 x m"
      have rs: "remove_splice s x m = Inr (?s2, ?sp, rc, d2)"
        by (simp add: remove_splice_other [OF mx] p1(1))
      have z1: "wfz s1 (Fork L x c (plug Tn gs)) fs"
        using p1(2) by (simp add: wfz_append [OF gd] wfz_up fork_def)
      have fresh: "m \<notin> set (inord (plug (Fork L x c (plug Tn gs)) fs))"
        using dist mx by (auto simp: io ioR inord_plug p1(3) before_LEFT [OF gl])
      have z2: "wfz ?s2 Tn ?hs'"
        using replace_with_fresh [OF z1 mx fresh] by (simp add: wfz_append [OF gd] wfz_up fork_def)
      have ctx: "ctx_bal (bh ?M) ?hs'" "ctx_rr (rootcol ?M) ?hs'"
        using BM(2) NM(2) ctx_bal_rename [of "bh ?M" gs RIGHT x c L fs m]
          ctx_rr_rename [of cm gs RIGHT x c L fs m] by simp_all
      have post: "(Tn = Tip \<and> rc = rootcol ?M \<and> bh ?M = (if rc = BLACK then 1 else 0)
                 \<and> (\<exists>cp U gs'. ?hs' = Frame d2 ?sp cp U # gs'))
            \<or> (Tn = Fork Tip ?sp BLACK Tip \<and> rc = RED \<and> d2 = NONE \<and> rootcol ?M = BLACK \<and> bh ?M = 1)"
        using p1(4)
      proof
        assume a: "Tn = Tip \<and> rc = cm \<and> bh ?M = (if rc = BLACK then 1 else 0) \<and> d2 = d \<and> sp = p"
        from a have spp: "sp = p" by blast
        have "\<exists>cp U gs'. ?hs' = Frame d ?sp cp U # gs'"
        proof (cases gs)
          case Nil
          with hs have "d = RIGHT" "p = x" by simp_all
          then show ?thesis by (simp add: Nil spp)
        next
          case (Cons g gs0)
          then have g: "g = Frame d p cp U" using hs by simp
          then have "d = LEFT" using gl Cons by simp
          then have "p \<in> set (inord R)" by (simp add: ioR Cons g)
          then have "p \<noteq> x" using dist by (auto simp: io)
          then show ?thesis by (simp add: Cons g spp)
        qed
        moreover from a have "Tn = Tip" "rc = cm" "bh ?M = (if rc = BLACK then 1 else 0)" "d2 = d"
          by blast+
        ultimately show ?thesis by simp
      next
        assume a: "Tn = Fork Tip sp BLACK Tip \<and> rc = RED \<and> d2 = NONE \<and> cm = BLACK \<and> bh ?M = 1"
        then have "sp \<in> set (inord Tn)" by simp
        then have "sp \<in> set (inord mr)" unfolding p1(3) .
        then have "sp \<in> set (inord R)" by (simp add: ioR)
        then have "sp \<noteq> x" using dist by (auto simp: io)
        moreover from a have "Tn = Fork Tip sp BLACK Tip" "rc = RED" "d2 = NONE" "cm = BLACK"
          "bh ?M = 1" by blast+
        ultimately show ?thesis by simp
      qed
      have i1: "inord (plug Tn ?hs') = (before fs @ inord L) @ (m # inord mr @ after gs @ after fs)"
        by (simp add: inord_plug before_append after_append before_LEFT [OF gl] p1(3))
      have i2: "inord T = (before fs @ inord L) @ x # (m # inord mr @ after gs @ after fs)"
        by (simp add: io ioR)
      show ?thesis by (rule fin [OF rn rs z2 ctx post i2 i1])
    qed
  qed
qed


section \<open>Rotation\<close>

text \<open>
  C5. \<open>rotate(dir)\<close> with \<open>dir = NONE\<close>, or with no child on the side opposite to \<open>dir\<close>,
  returns the node it was called on and leaves the state as it was: no colour, no
  parent, left or right link changes, and the hook is not called.
\<close>

theorem rotate_noop:
  "dir = NONE \<or> child_at s this (flip dir) = None \<Longrightarrow> rotate_rb s this dir = (s, this)"
  by (cases dir) (auto simp: rotate_rb_def Let_def)

theorem rotate_noop_witness:
  "(LEFT = NONE \<or> child_at tree5 1 (flip LEFT) = None) \<and> rotate_rb tree5 1 LEFT = (tree5, 1)"
proof -
  have h: "LEFT = NONE \<or> child_at tree5 1 (flip LEFT) = None"
    by code_simp
  from rotate_noop [OF h] h show ?thesis by simp
qed

text \<open>
  C4. The hook is not called bottom-up. On the tree with root 2, whose right child 4 has
  the children 3 and 5, \<open>rotate(LEFT)\<close> on node 2 returns node 4, the new local root, and
  the log of hook calls is: node 4 with its new children 2 and 5, then node 2 with its
  new children 1 and 3. The hook runs on the new local root before it runs on its new
  child, the node that was rotated.
\<close>

theorem rotate_fixup_order_at_input:
  "snd (rotate_rb tree5 2 LEFT) = 4
   \<and> fixups (fst (rotate_rb tree5 2 LEFT)) = [(4, Some 2, Some 5), (2, Some 1, Some 3)]
   \<and> map fst (fixups (fst (rotate_rb tree5 2 LEFT))) \<noteq> [2, 4]"
  by code_simp

lemma inorder_of_cong:
  "heap s = heap t \<Longrightarrow> inorder_of k s p = inorder_of k t p"
proof (induction k arbitrary: p)
  case 0
  show ?case by simp
next
  case (Suc k)
  from Suc.prems have "left_of s a = left_of t a" "right_of s a = right_of t a" for a
    by (simp_all add: left_of_def right_of_def del: left_of_conv right_of_conv)
  with Suc show ?case 
    by (simp split: option.splits del: left_of_conv right_of_conv)
qed

lemma rotate_back:
  assumes "rot_ready s x dir c"
  shows "rotate_rb s x dir = (fst (rotate_rb s x dir), c)"
    and "rotate_rb (fst (rotate_rb s x dir)) c (flip dir) = (fst (rotate_rb (fst (rotate_rb s x dir)) c (flip dir)), x)"
    and "heap (fst (rotate_rb (fst (rotate_rb s x dir)) c (flip dir))) = heap s"
proof -
  from assms have a: "dir \<noteq> NONE" "child_at s x (flip dir) = Some c" "c \<noteq> x" "parent_of s c = Some x"
    "\<And>b. child_at s c dir = Some b \<Longrightarrow> parent_of s b = Some c"
    "parent_of s x \<noteq> Some c" "parent_of s x \<noteq> Some x"
    "\<And>p. parent_of s x = Some p \<Longrightarrow> direction_of s p (Some c) = NONE"
    by (auto simp: rot_ready_def split: option.splits)
  define s1 where "s1 = fst (rotate_rb s x dir)"
  note f1 = rotate_rb_parent [OF a(1-3), folded s1_def] rotate_rb_child [OF a(1-3), folded s1_def]
    rotate_rb_color [of s x dir, folded s1_def]
  show r1: "rotate_rb s x dir = (fst (rotate_rb s x dir), c)"
    using rotate_rb_snd [OF a(1,2)] by (simp add: prod_eq_iff)
  have b: "flip dir \<noteq> NONE" "child_at s1 c (flip (flip dir)) = Some x" "x \<noteq> c"
    using a by (auto simp: f1)
  define s2 where "s2 = fst (rotate_rb s1 c (flip dir))"
  note f2 = rotate_rb_parent [OF b, folded s2_def] rotate_rb_child [OF b, folded s2_def]
    rotate_rb_color [of s1 c "flip dir", folded s2_def]
  show r2: "rotate_rb (fst (rotate_rb s x dir)) c (flip dir) = (fst (rotate_rb (fst (rotate_rb s x dir)) c (flip dir)), x)"
    using rotate_rb_snd [OF b(1,2)] by (simp add: s1_def prod_eq_iff)
  have "heap s2 = heap s"
  proof (rule heap_eqI)
    fix a show "color_of s2 a = color_of s a" by (simp add: f2 f1)
  next
    fix a show "parent_of s2 a = parent_of s a"
      using a by (auto simp: f2 f1)
  next
    fix a d show "child_at s2 a d = child_at s a d"
    proof (cases "parent_of s x")
      case None
      then show ?thesis using a by (auto simp: f2 f1)
    next
      case (Some pa)
      have pa: "pa \<noteq> c" "pa \<noteq> x" "direction_of s pa (Some c) = NONE" using Some a by auto
      have d1: "direction_of s1 pa (Some c) = direction_of s pa (Some x)"
        using pa Some a(1-3) by (auto simp: direction_of_conv f1)
      show ?thesis 
        using a pa Some d1 by (auto simp: f2 f1 child_at_direction_of)
    qed
  qed
  then show "heap (fst (rotate_rb (fst (rotate_rb s x dir)) c (flip dir))) = heap s"
    by (simp add: s2_def s1_def)
qed

text \<open>
  C8. Let \<open>x\<close> be a node of a tree with a child \<open>c\<close> on the side opposite to \<open>dir\<close>.
  Rotating \<open>x\<close> towards \<open>dir\<close> returns \<open>c\<close>; rotating \<open>c\<close> back towards the other side
  returns \<open>x\<close>, and the store is then what it was before the two rotations: every
  parent, left and right link (and every colour), hence also the in-order sequence of the
  nodes below \<open>x\<close>.
\<close>

theorem rotate_round_trip:
  assumes "rot_ready s x dir c"
  shows "case rotate_rb s x dir of
           (s1, r1) \<Rightarrow>
             (case rotate_rb s1 r1 (flip dir) of
                (s2, r2) \<Rightarrow>
                  r1 = c \<and> r2 = x
                  \<and> (\<forall>a. parent_of s2 a = parent_of s a \<and> left_of s2 a = left_of s a
                          \<and> right_of s2 a = right_of s a)
                  \<and> (\<forall>k. inorder_of k s2 (Some x) = inorder_of k s (Some x)))"
proof -
  obtain s1 r1 where e1: "rotate_rb s x dir = (s1, r1)" by (cases "rotate_rb s x dir")
  obtain s2 r2 where e2: "rotate_rb s1 r1 (flip dir) = (s2, r2)"
    by (cases "rotate_rb s1 r1 (flip dir)")
  from rotate_back [OF assms] e1 have r1: "r1 = c" by simp
  from rotate_back [OF assms] e1 e2 r1 have r2: "r2 = x" and h: "heap s2 = heap s" by simp_all
  from h have "parent_of s2 a = parent_of s a" "left_of s2 a = left_of s a"
    "right_of s2 a = right_of s a" for a
    by (simp_all add: parent_of_def left_of_def right_of_def del: left_of_conv right_of_conv)
  with r1 r2 inorder_of_cong [OF h] e1 e2 show ?thesis
    by (simp del: left_of_conv right_of_conv)
qed

theorem rotate_round_trip_witness:
  "rot_ready tree5 2 LEFT 4 \<and>
   (case rotate_rb tree5 2 LEFT of
           (s1, r1) \<Rightarrow>
             (case rotate_rb s1 r1 (flip LEFT) of
                (s2, r2) \<Rightarrow>
                  r1 = 4 \<and> r2 = 2
                  \<and> (\<forall>a. parent_of s2 a = parent_of tree5 a \<and> left_of s2 a = left_of tree5 a
                          \<and> right_of s2 a = right_of tree5 a)
                  \<and> (\<forall>k. inorder_of k s2 (Some 2) = inorder_of k tree5 (Some 2))))"
proof -
  have h: "rot_ready tree5 2 LEFT 4" by code_simp
  from rotate_round_trip [OF h] h show ?thesis by simp
qed

section \<open>Linking a child\<close>

text \<open>
  C7, as the code has it. \<open>p.set_child(c, d)\<close> writes at most two fields: when \<open>c\<close> is
  present the parent of \<open>c\<close> becomes \<open>p\<close>, whatever \<open>d\<close> is, and when \<open>d\<close> is \<open>LEFT\<close> or
  \<open>RIGHT\<close> the link of \<open>p\<close> on side \<open>d\<close> becomes \<open>c\<close>. Every other field of every node
  and the log of hook calls stay as they were: with \<open>d = NONE\<close> no link is written, and a
  node that was in the slot before keeps its parent reference. If the links at \<open>p\<close> were
  mutually consistent before the call, \<open>d\<close> is \<open>LEFT\<close> or \<open>RIGHT\<close> and the slot on side \<open>d\<close>
  was empty, they are mutually consistent after it.
\<close>

theorem set_child_sync:
  "(\<forall>x. parent_of (set_child s p c d) x = (if c = Some x then Some p else parent_of s x))
   \<and> (\<forall>x. left_of (set_child s p c d) x = (if x = p \<and> d = LEFT then c else left_of s x))
   \<and> (\<forall>x. right_of (set_child s p c d) x = (if x = p \<and> d = RIGHT then c else right_of s x))
   \<and> (\<forall>x. color_of (set_child s p c d) x = color_of s x)
   \<and> fixups (set_child s p c d) = fixups s
   \<and> ((d = LEFT \<or> d = RIGHT) \<and> links_agree s p \<and> child_at s p d = None
        \<longrightarrow> links_agree (set_child s p c d) p)"
proof -
  have "links_agree (set_child s p c d) p"
    if "d = LEFT \<or> d = RIGHT" "links_agree s p" "child_at s p d = None"
    using that by (auto simp: links_agree_def)
  then show ?thesis by (cases d) auto
qed

lemma links_agree_tree5: "links_agree tree5 1"
  by (auto simp: links_agree_def tree5_def mk_state_def mk_node_def parent_of_def left_of_def
      right_of_def simp del: left_of_conv right_of_conv split: if_splits)

theorem set_child_sync_witness:
  "(LEFT = LEFT \<or> LEFT = RIGHT) \<and> links_agree tree5 1 \<and> child_at tree5 1 LEFT = None
   \<and> left_of (set_child tree5 1 (Some 6) LEFT) 1 = Some 6
   \<and> parent_of (set_child tree5 1 (Some 6) LEFT) 6 = Some 1
   \<and> links_agree (set_child tree5 1 (Some 6) LEFT) 1"
proof -
  have h: "LEFT = LEFT \<or> LEFT = RIGHT" by simp
  have e: "child_at tree5 1 LEFT = None" by code_simp
  from set_child_sync [of tree5 1 "Some 6" LEFT] links_agree_tree5 e show ?thesis
    by (simp del: left_of_conv right_of_conv)
qed

text \<open>
  The claim as stated fails in two ways. With \<open>d = NONE\<close> the parent of the child is set
  and no link: node 6 then names node 1, and node 1 has no link to node 6. And a child
  displaced from the slot is left behind: after \<open>4.set_child(6, LEFT)\<close> node 3 still names
  node 4, and node 4 no longer links to node 3.
\<close>

theorem set_child_sync_counterexample:
  "parent_of (set_child tree5 1 (Some 6) NONE) 6 = Some 1
   \<and> left_of (set_child tree5 1 (Some 6) NONE) 1 \<noteq> Some 6
   \<and> right_of (set_child tree5 1 (Some 6) NONE) 1 \<noteq> Some 6
   \<and> parent_of (set_child tree5 4 (Some 6) LEFT) 3 = Some 4
   \<and> left_of (set_child tree5 4 (Some 6) LEFT) 4 \<noteq> Some 3
   \<and> right_of (set_child tree5 4 (Some 6) LEFT) 4 \<noteq> Some 3"
  by code_simp

section \<open>Replacing a node\<close>

text \<open>In a tree, the node that links to \<open>t\<close> is the parent of \<open>t\<close>, and the nodes that name
  \<open>t\<close> as their parent are the children of \<open>t\<close>.\<close>

lemma tr_root_parent: "tr s par T \<Longrightarrow> rootp T = Some a \<Longrightarrow> parent_of s a = par"
  by (cases T) auto

lemma tree_link_from_parent:
  assumes z: "wfz s (Fork L t c R) fs"
    and x: "x \<in> set (inord (plug (Fork L t c R) fs))"
    and l: "child_at s x e = Some t"
  shows "parent_of s t = Some x \<and> direction_of s x (Some t) = e"
proof -
  from z have tr: "tr s None (plug (Fork L t c R) fs)" and p: "parent_of s t = ptop fs"
    and po: "path_ok s (Some t) fs" and d: "distinct (inord (plug (Fork L t c R) fs))"
    by (auto simp: wfz_def zipper_def intro: zipper_plug)
  from tr_find [OF tr x] obtain l cx r gs where
    zx: "zipper s (Fork l x cx r) gs" by blast
  from l have e: "e \<noteq> NONE" by (cases e) auto
  from zx have cx: "child_at s x LEFT = rootp l" "child_at s x RIGHT = rootp r"
    "tr s (Some x) l" "tr s (Some x) r"
    by (simp_all add: zipper_def)
  from e l cx have "parent_of s t = Some x"
    by (cases e) (auto intro: tr_root_parent [of s "Some x" l t] tr_root_parent [of s "Some x" r t])
  with p obtain d0 cp u hs where fs: "fs = Frame d0 x cp u # hs"
    by (cases fs rule: ptop.cases) auto
  from po d have q: "d0 \<noteq> NONE" "child_at s x d0 = Some t" "child_at s x (flip d0) = rootp u"
    "t \<notin> set (inord u)"
    by (auto simp: fs inord_plug split: if_splits)
  from direction_of_frame [OF q] have dd: "direction_of s x (Some t) = d0" .
  from q(3,4) have "child_at s x (flip d0) \<noteq> Some t"
    by (auto dest: rootp_in_inord)
  with l e q(1) have "e = d0" by (cases e; cases d0) auto
  with dd \<open>parent_of s t = Some x\<close> show ?thesis by simp
qed

lemma tree_parent_of_child:
  assumes z: "wfz s (Fork L t c R) fs"
    and x: "x \<in> set (inord (plug (Fork L t c R) fs))"
    and l: "parent_of s x = Some t"
  shows "child_at s t LEFT = Some x \<or> child_at s t RIGHT = Some x"
proof -
  from z have tr: "tr s None (plug (Fork L t c R) fs)"
    by (auto simp: wfz_def intro: zipper_plug)
  from tr_find [OF tr x] obtain l' cx r gs where
    zx: "zipper s (Fork l' x cx r) gs" by blast
  then have "parent_of s x = ptop gs" "path_ok s (Some x) gs" by (simp_all add: zipper_def)
  with l obtain d0 cp u hs where "gs = Frame d0 t cp u # hs" "d0 \<noteq> NONE" "child_at s t d0 = Some x"
    by (cases gs rule: ptop.cases) auto
  then show ?thesis by (cases d0) auto
qed

text \<open>
  C3, as the code has it. Let \<open>t\<close> be a node of a tree in the store, with the subtrees \<open>L\<close>
  and \<open>R\<close> below it and the way \<open>fs\<close> from it to the root, and \<open>n\<close> a node other than \<open>t\<close>
  and other than the parent of \<open>t\<close>. After \<open>t.replace_with(n)\<close>, \<open>n\<close> has the former parent
  of \<open>t\<close>, and that parent links to \<open>n\<close> where it linked to \<open>t\<close>; \<open>n\<close> has the former
  children of \<open>t\<close> other than \<open>n\<close> itself, and they name \<open>n\<close> as their parent; \<open>n\<close> has the
  former colour of \<open>t\<close>; no node of the tree, and not \<open>n\<close>, links to \<open>t\<close> or names it as
  parent, and the left and right links of \<open>t\<close> are empty. The parent field of \<open>t\<close> keeps
  its value.
\<close>

theorem replace_with_installs:
  assumes "wfz s (Fork L t c R) fs" and "n \<noteq> t" and "parent_of s t \<noteq> Some n"
  shows "parent_of (replace_with s t n) n = parent_of s t
    \<and> (\<forall>p. parent_of s t = Some p \<longrightarrow>
          child_at (replace_with s t n) p (direction_of s p (Some t)) = Some n
          \<and> direction_of s p (Some t) \<noteq> NONE)
    \<and> left_of (replace_with s t n) n = (if left_of s t = Some n then None else left_of s t)
    \<and> right_of (replace_with s t n) n = (if right_of s t = Some n then None else right_of s t)
    \<and> (\<forall>x. (left_of s t = Some x \<or> right_of s t = Some x) \<and> x \<noteq> n \<longrightarrow>
          parent_of (replace_with s t n) x = Some n)
    \<and> color_of (replace_with s t n) n = color_of s t
    \<and> (\<forall>x \<in> set (inord (plug (Fork L t c R) fs)) \<union> {n}.
          left_of (replace_with s t n) x \<noteq> Some t \<and> right_of (replace_with s t n) x \<noteq> Some t
          \<and> parent_of (replace_with s t n) x \<noteq> Some t)
    \<and> left_of (replace_with s t n) t = None \<and> right_of (replace_with s t n) t = None
    \<and> parent_of (replace_with s t n) t = parent_of s t"
proof -
  let ?T = "plug (Fork L t c R) fs"
  from assms(1) have p: "parent_of s t = ptop fs" and po: "path_ok s (Some t) fs"
    and d: "distinct (inord ?T)"
    and ch: "child_at s t LEFT = rootp L" "child_at s t RIGHT = rootp R"
    by (auto simp: wfz_def zipper_def)
  from d have tn: "t \<notin> set (inord L)" "t \<notin> set (inord R)" "t \<notin> set (before fs) \<union> set (after fs)"
    by (auto simp: inord_plug)
  have pt: "parent_of s t \<noteq> Some t"
    using p tn(3) ptop_in_ancestors [of fs t] by auto
  have noself: "child_at s t e \<noteq> Some t" for e
    using ch tn rootp_in_inord [of L t] rootp_in_inord [of R t] by (cases e) auto
  note f = replace_with_parent [OF assms(2,3) pt] replace_with_child [OF assms(2,3) pt]
    replace_with_color [OF assms(2)]
  have tin: "t \<in> set (inord ?T)" by (simp add: inord_plug)
  have par: "child_at (replace_with s t n) q (direction_of s q (Some t)) = Some n
      \<and> direction_of s q (Some t) \<noteq> NONE" if "parent_of s t = Some q" for q
  proof -
    from that p obtain d0 cp u hs where fs: "fs = Frame d0 q cp u # hs"
      by (cases fs rule: ptop.cases) auto
    from direction_of_wfz [OF assms(1) [unfolded fs], of t] po
    have "direction_of s q (Some t) = d0" "d0 \<noteq> NONE" by (simp_all add: fs)
    with that assms(2,3) pt show ?thesis by (auto simp: f)
  qed
  have links: "child_at (replace_with s t n) x e \<noteq> Some t" if "x \<in> set (inord ?T) \<union> {n}" for x e
  proof (cases "x = n \<or> x = t")
    case True
    with noself assms(2) show ?thesis by (auto simp: f)
  next
    case nx: False
    with that have x: "x \<in> set (inord ?T)" by simp
    show ?thesis
    proof (cases "child_at s x e = Some t")
      case True
      from tree_link_from_parent [OF assms(1) x True] nx assms(2) True
      show ?thesis by (auto simp: f)
    next
      case False
      with assms(2) nx noself show ?thesis by (auto simp: f)
    qed
  qed
  have pars: "parent_of (replace_with s t n) x \<noteq> Some t" if "x \<in> set (inord ?T) \<union> {n}" for x
  proof (cases "x = n")
    case True
    with pt show ?thesis by (simp add: f)
  next
    case nx: False
    with that have x: "x \<in> set (inord ?T)" by simp
    show ?thesis
    proof (cases "parent_of s x = Some t")
      case True
      from tree_parent_of_child [OF assms(1) x True] nx assms(2)
      show ?thesis by (auto simp: f)
    next
      case False
      with assms(2) nx show ?thesis by (auto simp: f)
    qed
  qed
  have own: "parent_of (replace_with s t n) t = parent_of s t"
    using assms(2) noself by (simp add: f)
  show ?thesis
    using assms(2) par links pars own by (simp add: f)
qed

theorem replace_with_installs_witness:
  "wfz tree4_stale (Fork Tip 4 BLACK (Fork Tip 5 RED Tip)) [Frame RIGHT 2 BLACK (Fork Tip 1 BLACK Tip)]
    \<and> parent_of tree4_stale 4 \<noteq> Some 5
    \<and> parent_of (replace_with tree4_stale 4 5) 5 = Some 2
    \<and> right_of (replace_with tree4_stale 4 5) 2 = Some 5
    \<and> left_of (replace_with tree4_stale 4 5) 5 = None
    \<and> right_of (replace_with tree4_stale 4 5) 5 = None
    \<and> color_of (replace_with tree4_stale 4 5) 5 = BLACK
    \<and> left_of (replace_with tree4_stale 4 5) 1 \<noteq> Some 4
    \<and> right_of (replace_with tree4_stale 4 5) 1 \<noteq> Some 4
    \<and> parent_of (replace_with tree4_stale 4 5) 1 \<noteq> Some 4
    \<and> left_of (replace_with tree4_stale 4 5) 2 \<noteq> Some 4
    \<and> right_of (replace_with tree4_stale 4 5) 2 \<noteq> Some 4
    \<and> parent_of (replace_with tree4_stale 4 5) 2 \<noteq> Some 4
    \<and> left_of (replace_with tree4_stale 4 5) 4 \<noteq> Some 4
    \<and> right_of (replace_with tree4_stale 4 5) 4 \<noteq> Some 4
    \<and> parent_of (replace_with tree4_stale 4 5) 4 \<noteq> Some 4
    \<and> left_of (replace_with tree4_stale 4 5) 5 \<noteq> Some 4
    \<and> right_of (replace_with tree4_stale 4 5) 5 \<noteq> Some 4
    \<and> parent_of (replace_with tree4_stale 4 5) 5 \<noteq> Some 4
    \<and> left_of (replace_with tree4_stale 4 5) 4 = None
    \<and> right_of (replace_with tree4_stale 4 5) 4 = None
    \<and> parent_of (replace_with tree4_stale 4 5) 4 = Some 2"
proof -
  have a: "wfz tree4_stale (Fork Tip 4 BLACK (Fork Tip 5 RED Tip))
      [Frame RIGHT 2 BLACK (Fork Tip 1 BLACK Tip)]"
    by code_simp
  have b: "(5::addr) \<noteq> 4" by simp
  have c: "parent_of tree4_stale 4 \<noteq> Some 5" by code_simp
  have v: "parent_of tree4_stale 4 = Some 2" "direction_of tree4_stale 2 (Some 4) = RIGHT"
    "left_of tree4_stale 4 = None" "right_of tree4_stale 4 = Some 5"
    "color_of tree4_stale 4 = BLACK"
    by code_simp+
  have i: "set (inord (plug (Fork Tip 4 BLACK (Fork Tip 5 RED Tip))
      [Frame RIGHT 2 BLACK (Fork Tip 1 BLACK Tip)])) \<union> {5} = {1, 2, 4, 5}"
    by (auto simp: fork_def)
  from replace_with_installs [OF a b c] v a c show ?thesis
    unfolding i by simp
qed

text \<open>The claim as stated has \<open>t\<close> without a parent reference afterwards; node 4 still names
  node 2.\<close>

theorem replace_with_counterexample:
  "parent_of (replace_with tree5 4 5) 4 = Some 2 \<and> parent_of (replace_with tree5 4 5) 4 \<noteq> None"
  by code_simp

section \<open>Removal\<close>

text \<open>
  C2. In the general case of \<open>remove\<close> (the target is not a root with at most one
  child), let \<open>remove_node\<close> be the node that is detached. The colour passed to
  \<open>rebalance_after_remove\<close> is the colour the promoted child had before the call when
  \<open>remove_node\<close> has a child, and the colour of \<open>remove_node\<close> itself when it has none.
\<close>

theorem remove_passes_lost_color:
  assumes "\<not> (parent_of s this = None \<and> \<not> (left_of s this \<noteq> None \<and> right_of s this \<noteq> None))"
    and "remove_node_of s this = Some remove_node"
    and "remove_splice s this remove_node = Inr (s1, splice_node, remove_color, d)"
  shows "remove_color =
       (case promoted_child s remove_node of
          Some child \<Rightarrow> color_of s child
        | None \<Rightarrow> color_of s remove_node)
     \<and> remove_rb s this =
       (case rebalance_after_remove s1 splice_node remove_color d of
          None \<Rightarrow> None
        | Some (Inl e) \<Rightarrow> Some (Inl e)
        | Some (Inr (s2, root)) \<Rightarrow> Some (Inr (set_color s2 root BLACK, Some root)))"
proof -
  have "remove_color =
       (case promoted_child s remove_node of
          Some child \<Rightarrow> color_of s child
        | None \<Rightarrow> color_of s remove_node)"
    using assms(3)
    by (auto simp: remove_splice_def promoted_child_def Let_def
        split: option.splits if_splits)
  moreover have "remove_rb s this =
       (case rebalance_after_remove s1 splice_node remove_color d of
          None \<Rightarrow> None
        | Some (Inl e) \<Rightarrow> Some (Inl e)
        | Some (Inr (s2, root)) \<Rightarrow> Some (Inr (set_color s2 root BLACK, Some root)))"
    using assms unfolding remove_rb_def remove_node_of_def
    by (auto simp del: left_of_conv right_of_conv)
  ultimately show ?thesis by simp
qed

theorem remove_passes_lost_color_witness:
  "promoted_child tree4 4 = Some 5 \<and> color_of tree4 5 = RED \<and> color_of tree4 4 = BLACK
   \<and> remove_rb tree4 4 =
       (case rebalance_after_remove (replace_with tree4 4 5) 5 RED NONE of
          None \<Rightarrow> None
        | Some (Inl e) \<Rightarrow> Some (Inl e)
        | Some (Inr (s2, root)) \<Rightarrow> Some (Inr (set_color s2 root BLACK, Some root)))"
proof -
  have v: "parent_of tree4 4 = Some 2" "left_of tree4 4 = None" "right_of tree4 4 = Some 5"
    "color_of tree4 5 = RED" "color_of tree4 4 = BLACK"
    by code_simp+
  have a: "\<not> (parent_of tree4 4 = None \<and> \<not> (left_of tree4 4 \<noteq> None \<and> right_of tree4 4 \<noteq> None))"
    by (simp add: v del: left_of_conv right_of_conv)
  have b: "remove_node_of tree4 4 = Some 4"
    by (simp add: remove_node_of_def v del: left_of_conv right_of_conv)
  have c: "remove_splice tree4 4 4 = Inr (replace_with tree4 4 5, 5, RED, NONE)"
    by (simp add: remove_splice_def v del: left_of_conv right_of_conv)
  have p: "promoted_child tree4 4 = Some 5"
    by (simp add: promoted_child_def v del: left_of_conv right_of_conv)
  from remove_passes_lost_color [OF a b c] p v show ?thesis by simp
qed

section \<open>Rebalancing after the removal of a red node\<close>

text \<open>
  C6. \<open>rebalance_after_remove(RED, d)\<close> changes no field of any node: when it returns, the
  store is the one it was called on. If the chain of ancestors of the node is \<open>ps\<close>, it
  returns the last node of the chain, the root, having called the hook once on each node
  of the chain, from the node upwards; it never dereferences a null pointer.
\<close>

theorem rebalance_after_remove_RED:
  "(anc_path s this ps \<longrightarrow>
      (\<exists>s1. rebalance_after_remove s this RED d = Some (Inr (s1, last ps))
         \<and> heap s1 = heap s
         \<and> fixups s1 = fixups s @ map (\<lambda>a. (a, left_of s a, right_of s a)) ps))
   \<and> (\<forall>s1 root. rebalance_after_remove s this RED d = Some (Inr (s1, root)) \<longrightarrow> heap s1 = heap s)
   \<and> rebalance_after_remove s this RED d \<noteq> Some (Inl e)"
proof -
  have r: "rebalance_after_remove s this RED d = map_option Inr (ripple_structure_fixup s this)"
    by (simp add: rebalance_after_remove_def split: option.splits)
  have a: "\<exists>s1. rebalance_after_remove s this RED d = Some (Inr (s1, last ps))
         \<and> heap s1 = heap s
         \<and> fixups s1 = fixups s @ map (\<lambda>a. (a, left_of s a, right_of s a)) ps"
    if "anc_path s this ps"
    using ripple_loop_total [OF that]
    by (intro exI [of _ "foldl structure_fixup s ps"]) (simp add: r ripple_structure_fixup_def)
  have b: "heap s1 = heap s" if "rebalance_after_remove s this RED d = Some (Inr (s1, root))"
    for s1 root
    using that ripple_loop_heap [of s this "Some this" "(s1, root)"]
    by (auto simp: r ripple_structure_fixup_def)
  have c: "rebalance_after_remove s this RED d \<noteq> Some (Inl e)"
    by (auto simp: r)
  show ?thesis
    by (intro conjI impI allI a b c)
qed

theorem rebalance_after_remove_RED_witness:
  "anc_path tree5 3 [3, 4, 2]
   \<and> (\<exists>s1. rebalance_after_remove tree5 3 RED NONE = Some (Inr (s1, 2))
         \<and> heap s1 = heap tree5
         \<and> fixups s1 = [(3, None, None), (4, Some 3, Some 5), (2, Some 1, Some 4)])"
proof -
  have a: "anc_path tree5 3 [3, 4, 2]" by code_simp
  have f: "fixups tree5 @ map (\<lambda>a. (a, left_of tree5 a, right_of tree5 a)) [3, 4, 2]
      = [(3, None, None), (4, Some 3, Some 5), (2, Some 1, Some 4)]"
    by code_simp
  from rebalance_after_remove_RED [of tree5 3 "[3, 4, 2]" NONE] a
  have "\<exists>s1. rebalance_after_remove tree5 3 RED NONE = Some (Inr (s1, last [3, 4, 2]))
         \<and> heap s1 = heap tree5
         \<and> fixups s1 = fixups tree5 @ map (\<lambda>a. (a, left_of tree5 a, right_of tree5 a)) [3, 4, 2]"
    by blast
  with a show ?thesis unfolding f by simp
qed

section \<open>Validation\<close>

text \<open>
  C9. \<open>validate\<close> does not tell a tree with a defect from a red-black tree. In \<open>redred\<close>
  the red node 1 has the red child 0; \<open>validate\<close> on its root returns 0, and it returns 0
  on the root of the red-black tree \<open>tree5\<close> as well.
\<close>

theorem validate_at_failing_input:
  "color_of redred 1 = RED \<and> left_of redred 1 = Some 0 \<and> color_of redred 0 = RED
   \<and> validate redred 2 = 0 \<and> validate tree5 2 = 0"
  by code_simp

section \<open>Rebalancing after the removal of a black node\<close>

text \<open>
  C10. Let the store hold a tree in which the subtree \<open>Tn\<close>, with the way \<open>fs\<close> from it to
  the root, is where a black node was physically removed: \<open>Tn\<close> is balanced, and with the
  subtree \<open>T0\<close> that was there before the removal, whose black height was one more, the
  whole tree was balanced. \<open>rebalance_after_remove\<close> is called with colour \<open>BLACK\<close>, on the
  parent with the side \<open>d\<close> of the removal when \<open>Tn\<close> is empty, and on the root of \<open>Tn\<close> with
  \<open>d = NONE\<close> otherwise. Then the call returns a state and a root: the sibling \<open>w\<close> and
  its far child \<open>wfc\<close> are present wherever the loop dereferences them.
\<close>

theorem rebalance_after_remove_no_null_deref:
  assumes "wfz s Tn fs"
    and "(Tn = Tip \<and> (\<exists>cp W0 gs. fs = Frame d this cp W0 # gs))
         \<or> (rootp Tn = Some this \<and> d = NONE)"
    and "balanced Tn" and "balanced (plug T0 fs)" and "bh T0 = Suc (bh Tn)"
  shows "\<exists>s' r. rebalance_after_remove s this BLACK d = Some (Inr (s', r))"
proof -
  from balanced_plug [OF wfz_dirs [OF assms(1)], of T0] assms(4,5)
  have "ctx_bal (Suc (bh Tn)) fs" by simp
  with assms(3) have I: "rar_safe Tn fs" by (simp add: rar_safe_def)
  have "\<exists>s' T' r. rebalance_after_remove s this BLACK d = Some (Inr (s', r))
     \<and> tr s' None T' \<and> rootp T' = Some r \<and> True
     \<and> inord T' = inord (plug Tn fs) \<and> distinct (inord T')"
    using _ _ assms(1) I assms(2)
  proof (rule rebalance_after_remove_BLACK [where I = rar_safe and Q = "\<lambda>_. True"])
    fix Tn near p cp W0 fs
    assume "rar_safe Tn (Frame near p cp W0 # fs)" "near \<noteq> NONE"
    from rar_safe_step [OF this]
    show "case rar_abs Tn (Frame near p cp W0) fs of
         Fault \<Rightarrow> False
       | Done (T', fs') \<Rightarrow> True
       | Again (T', fs') \<Rightarrow> rar_safe T' fs'"
      by (auto split: outcome.splits)
  qed simp
  then show ?thesis by blast
qed

theorem rebalance_after_remove_no_null_deref_witness:
  "wfz tree5_cut Tip [Frame LEFT 2 BLACK (Fork (Fork Tip 3 RED Tip) 4 BLACK (Fork Tip 5 RED Tip))]
   \<and> balanced (plug (Fork Tip 1 BLACK Tip)
        [Frame LEFT 2 BLACK (Fork (Fork Tip 3 RED Tip) 4 BLACK (Fork Tip 5 RED Tip))])
   \<and> bh (Fork Tip 1 BLACK Tip) = Suc (bh Tip)
   \<and> (\<exists>s' r. rebalance_after_remove tree5_cut 2 BLACK LEFT = Some (Inr (s', r)))"
proof -
  let ?fs = "[Frame LEFT 2 BLACK (Fork (Fork Tip 3 RED Tip) 4 BLACK (Fork Tip 5 RED Tip))]"
  have a: "wfz tree5_cut Tip ?fs" by code_simp
  have b: "(Tip = Tip \<and> (\<exists>cp W0 gs. ?fs = Frame LEFT 2 cp W0 # gs)) \<or> (rootp Tip = Some 2 \<and> LEFT = NONE)"
    by simp
  have c: "balanced Tip" by simp
  have d: "balanced (plug (Fork Tip 1 BLACK Tip) ?fs)" by code_simp
  have e: "bh (Fork Tip 1 BLACK Tip) = Suc (bh Tip)" by simp
  from rebalance_after_remove_no_null_deref [OF a b c d e] a d e show ?thesis by blast
qed

end
